theory Spec2Isabelle
  imports Main "HOL-Library.Monad_Syntax"
begin

section \<open>Strings and numbers of the host language\<close>

text \<open>
  The linter works on JavaScript strings. A text is modelled as a \<open>string\<close>, a list of
  code units (here: the code units below 256); offsets into it are JavaScript numbers
  that hold integers, modelled as \<open>int\<close>. The one place where the source can produce a
  number that is no integer is \<open>index - undefined\<close> in \<open>getLinePos\<close>, which is \<open>NaN\<close>.
\<close>

datatype jsnum = Num int | NaN

text \<open>\<open>String.prototype.split\<close> with a one-character separator: the pieces between
  the separators, so that a text with \<open>n\<close> separators has \<open>n + 1\<close> pieces.\<close>

fun split_chr :: "char \<Rightarrow> string \<Rightarrow> string list" where
  "split_chr sep [] = [[]]"
| "split_chr sep (c # cs) =
     (if c = sep then [] # split_chr sep cs
      else (case split_chr sep cs of
              [] \<Rightarrow> [[c]]
            | l # ls \<Rightarrow> (c # l) # ls))"

definition newline :: char where
  "newline = CHR 0x0A"

section \<open>Regular expressions\<close>

text \<open>
  Every scan of the linter is a JavaScript regular expression. The patterns are kept as
  syntax trees and run by a backtracking matcher that follows the semantics of
  ECMAScript: alternatives are tried left to right, quantifiers are greedy or lazy, and
  the first way to match wins. A matcher takes a continuation (the rest of the pattern)
  and a state: the offset in the text, the character before it, the text from the offset
  on, and the capture groups set so far, newest first, as (group, start, end).
\<close>

record mstate =
  m_at :: nat
  m_prev :: "char option"
  m_rest :: string
  m_caps :: "(nat \<times> nat \<times> nat) list"

type_synonym cont = "mstate \<Rightarrow> mstate option"
type_synonym matcher = "cont \<Rightarrow> mstate \<Rightarrow> mstate option"

datatype regex =
    Eps
  | Cls "char \<Rightarrow> bool"
  | Seq regex regex
  | Alt regex regex
  | Rep bool nat "nat option" regex
  | Grp nat regex
  | Bol
  | Eol
  | WordB

text \<open>Character classes. \<open>\s\<close> is the white space of ECMAScript among the code units
  below 256, \<open>\w\<close> is \<open>[A-Za-z0-9_]\<close>, and \<open>.\<close> is everything but a line terminator.\<close>

definition char_code :: "char \<Rightarrow> nat" where
  "char_code c = of_char c"

definition between :: "char \<Rightarrow> char \<Rightarrow> char \<Rightarrow> bool" where
  "between a b c \<longleftrightarrow> char_code a \<le> char_code c \<and> char_code c \<le> char_code b"

definition is_space :: "char \<Rightarrow> bool" where
  "is_space c \<longleftrightarrow> char_code c \<in> {9, 10, 11, 12, 13, 32, 160}"

definition is_upper :: "char \<Rightarrow> bool" where
  "is_upper c \<longleftrightarrow> between CHR ''A'' CHR ''Z'' c"

definition is_lower :: "char \<Rightarrow> bool" where
  "is_lower c \<longleftrightarrow> between CHR ''a'' CHR ''z'' c"

definition is_digit :: "char \<Rightarrow> bool" where
  "is_digit c \<longleftrightarrow> between CHR ''0'' CHR ''9'' c"

definition is_alnum :: "char \<Rightarrow> bool" where
  "is_alnum c \<longleftrightarrow> is_upper c \<or> is_lower c \<or> is_digit c"

definition is_word :: "char \<Rightarrow> bool" where
  "is_word c \<longleftrightarrow> is_alnum c \<or> c = CHR ''_''"

definition is_dot :: "char \<Rightarrow> bool" where
  "is_dot c \<longleftrightarrow> char_code c \<notin> {10, 13}"

text \<open>The step of a quantifier \<open>{mn,mx}\<close> (\<open>mx = None\<close> for no upper bound) over the
  matcher \<open>f\<close> of its atom, as ECMAScript's RepeatMatcher: an iteration that is not
  required and consumes nothing is rejected. The first argument bounds the number of
  iterations still possible: the required ones plus the characters left.\<close>

primrec rep :: "nat \<Rightarrow> matcher \<Rightarrow> bool \<Rightarrow> nat \<Rightarrow> nat option \<Rightarrow> matcher" where
  "rep 0 f greedy mn mx k st = k st"
| "rep (Suc n) f greedy mn mx k st =
     (if mx = Some 0 then k st
      else
        let d = (\<lambda>st'. if mn = 0 \<and> m_at st' = m_at st then None
                       else rep n f greedy (mn - 1) (map_option (\<lambda>x. x - 1) mx) k st')
        in if 0 < mn then f d st
           else if greedy then (case f d st of Some r \<Rightarrow> Some r | None \<Rightarrow> k st)
           else (case k st of Some r \<Rightarrow> Some r | None \<Rightarrow> f d st))"

definition is_word_opt :: "char option \<Rightarrow> bool" where
  "is_word_opt c = (case c of None \<Rightarrow> False | Some x \<Rightarrow> is_word x)"

definition next_char :: "mstate \<Rightarrow> char option" where
  "next_char st = (case m_rest st of [] \<Rightarrow> None | c # cs \<Rightarrow> Some c)"

primrec matcher_of :: "regex \<Rightarrow> matcher" where
  "matcher_of Eps k st = k st"
| "matcher_of (Cls P) k st =
     (case m_rest st of
        [] \<Rightarrow> None
      | c # cs \<Rightarrow>
          if P c then k (st\<lparr>m_at := m_at st + 1, m_prev := Some c, m_rest := cs\<rparr>)
          else None)"
| "matcher_of (Seq a b) k st = matcher_of a (matcher_of b k) st"
| "matcher_of (Alt a b) k st =
     (case matcher_of a k st of Some r \<Rightarrow> Some r | None \<Rightarrow> matcher_of b k st)"
| "matcher_of (Rep greedy mn mx a) k st =
     rep (mn + length (m_rest st)) (matcher_of a) greedy mn mx k st"
| "matcher_of (Grp g a) k st =
     matcher_of a (\<lambda>st'. k (st'\<lparr>m_caps := (g, m_at st, m_at st') # m_caps st'\<rparr>)) st"
| "matcher_of Bol k st = (if m_at st = 0 then k st else None)"
| "matcher_of Eol k st = (if m_rest st = [] then k st else None)"
| "matcher_of WordB k st =
     (if is_word_opt (m_prev st) \<noteq> is_word_opt (next_char st) then k st else None)"

text \<open>Abbreviations for the syntax of patterns.\<close>

definition Chr :: "char \<Rightarrow> regex" where
  "Chr c = Cls (\<lambda>x. x = c)"

definition OneOf :: "string \<Rightarrow> regex" where
  "OneOf cs = Cls (\<lambda>x. x \<in> set cs)"

definition NoneOf :: "string \<Rightarrow> regex" where
  "NoneOf cs = Cls (\<lambda>x. x \<notin> set cs)"

fun Seqs :: "regex list \<Rightarrow> regex" where
  "Seqs [] = Eps"
| "Seqs [r] = r"
| "Seqs (r # rs) = Seq r (Seqs rs)"

fun Alts :: "regex list \<Rightarrow> regex" where
  "Alts [] = Eps"
| "Alts [r] = r"
| "Alts (r # rs) = Alt r (Alts rs)"

definition Lit :: "string \<Rightarrow> regex" where
  "Lit cs = Seqs (map Chr cs)"

definition Many :: "regex \<Rightarrow> regex" where
  "Many r = Rep True 0 None r"

definition Many1 :: "regex \<Rightarrow> regex" where
  "Many1 r = Rep True 1 None r"

definition Maybe :: "regex \<Rightarrow> regex" where
  "Maybe r = Rep True 0 (Some 1) r"

definition LazyMany :: "regex \<Rightarrow> regex" where
  "LazyMany r = Rep False 0 None r"

definition LazyMany1 :: "regex \<Rightarrow> regex" where
  "LazyMany1 r = Rep False 1 None r"

text \<open>The result of a successful \<open>exec\<close>: where the match starts and ends, and its
  capture groups.\<close>

record regmatch =
  mt_index :: nat
  mt_end :: nat
  mt_caps :: "(nat \<times> nat \<times> nat) list"

text \<open>\<open>RegExp.prototype.exec\<close>: try the pattern at \<open>lastIndex\<close>, then at each later
  offset up to the end of the text. For a pattern without the \<open>g\<close> flag \<open>lastIndex\<close>
  is \<open>0\<close>.\<close>

fun exec_scan :: "regex \<Rightarrow> nat \<Rightarrow> char option \<Rightarrow> string \<Rightarrow> regmatch option" where
  "exec_scan r i prev [] =
     (case matcher_of r Some \<lparr>m_at = i, m_prev = prev, m_rest = [], m_caps = []\<rparr> of
        Some st \<Rightarrow> Some \<lparr>mt_index = i, mt_end = m_at st, mt_caps = m_caps st\<rparr>
      | None \<Rightarrow> None)"
| "exec_scan r i prev (c # cs) =
     (case matcher_of r Some \<lparr>m_at = i, m_prev = prev, m_rest = c # cs, m_caps = []\<rparr> of
        Some st \<Rightarrow> Some \<lparr>mt_index = i, mt_end = m_at st, mt_caps = m_caps st\<rparr>
      | None \<Rightarrow> exec_scan r (i + 1) (Some c) cs)"

definition exec :: "regex \<Rightarrow> string \<Rightarrow> nat \<Rightarrow> regmatch option" where
  "exec r s lastIndex =
     (if length s < lastIndex then None
      else exec_scan r lastIndex
             (if lastIndex = 0 then None else Some (s ! (lastIndex - 1)))
             (drop lastIndex s))"

definition test :: "regex \<Rightarrow> string \<Rightarrow> bool" where
  "test r s = (exec r s 0 \<noteq> None)"

text \<open>\<open>match[0]\<close>, and \<open>match[g]\<close> for a group \<open>g\<close>, which is \<open>undefined\<close> (here
  \<open>None\<close>) when the group took no part in the match.\<close>

definition substr :: "string \<Rightarrow> nat \<Rightarrow> nat \<Rightarrow> string" where
  "substr s a b = take (b - a) (drop a s)"

definition matched :: "string \<Rightarrow> regmatch \<Rightarrow> string" where
  "matched s mt = substr s (mt_index mt) (mt_end mt)"

definition capture :: "string \<Rightarrow> regmatch \<Rightarrow> nat \<Rightarrow> string option" where
  "capture s mt g =
     (case map_of (mt_caps mt) g of
        None \<Rightarrow> None
      | Some (a, b) \<Rightarrow> Some (substr s a b))"


subsection \<open>Every match moves forward through the text\<close>

text \<open>A matcher hands to its continuation a state further on in the same text, at
  least as far on as the length of the shortest string the pattern can match.\<close>

definition advances :: "mstate \<Rightarrow> mstate \<Rightarrow> bool" where
  "advances st st' \<longleftrightarrow>
     (\<exists>pre. m_rest st = pre @ m_rest st' \<and> m_at st' = m_at st + length pre
        \<and> m_prev st' = (if pre = [] then m_prev st else Some (last pre)))"

lemma advances_refl: "advances st st"
  by (simp add: advances_def)

lemma advances_trans: "advances a b \<Longrightarrow> advances b c \<Longrightarrow> advances a c"
  unfolding advances_def
  by (elim exE conjE, rule_tac x = "pre @ prea" in exI) auto

lemma advances_at: "advances a b \<Longrightarrow> m_at a \<le> m_at b"
  by (auto simp: advances_def)

lemma advances_len: "advances a b \<Longrightarrow> m_at b + length (m_rest b) = m_at a + length (m_rest a)"
  by (auto simp: advances_def)

lemma advances_caps: "advances a b \<Longrightarrow> advances a (b\<lparr>m_caps := c\<rparr>)"
  by (auto simp: advances_def)

primrec minlen :: "regex \<Rightarrow> nat" where
  "minlen Eps = 0"
| "minlen (Cls P) = 1"
| "minlen (Seq a b) = minlen a + minlen b"
| "minlen (Alt a b) = min (minlen a) (minlen b)"
| "minlen (Rep greedy mn mx a) = (case mx of None \<Rightarrow> mn | Some j \<Rightarrow> min mn j) * minlen a"
| "minlen (Grp g a) = minlen a"
| "minlen Bol = 0"
| "minlen Eol = 0"
| "minlen WordB = 0"

definition sound :: "matcher \<Rightarrow> nat \<Rightarrow> bool" where
  "sound f l \<longleftrightarrow> (\<forall>k st res. f k st = Some res \<longrightarrow>
      (\<exists>st'. advances st st' \<and> m_at st + l \<le> m_at st' \<and> k st' = Some res))"

lemma pred_mult_le: "0 < a \<Longrightarrow> a * l \<le> l + (a - Suc 0) * (l::nat)"
  by (cases a) auto

lemma soundD:
  "sound f l \<Longrightarrow> f k st = Some res \<Longrightarrow>
     \<exists>st'. advances st st' \<and> m_at st + l \<le> m_at st' \<and> k st' = Some res"
  unfolding sound_def by blast

lemma rep_sound:
  assumes f: "sound f l"
  shows "rep n f greedy mn mx k st = Some res \<Longrightarrow> mn \<le> n \<Longrightarrow>
      \<exists>st'. advances st st'
        \<and> m_at st + (case mx of None \<Rightarrow> mn | Some j \<Rightarrow> min mn j) * l \<le> m_at st'
        \<and> k st' = Some res"
proof (induction n arbitrary: mn mx st)
  case 0
  then show ?case by (auto intro: advances_refl split: option.splits)
next
  case (Suc n)
  let ?mx' = "map_option (\<lambda>x. x - 1) mx"
  let ?d = "\<lambda>st'. if mn = 0 \<and> m_at st' = m_at st then None
                 else rep n f greedy (mn - 1) ?mx' k st'"
  show ?case
  proof (cases "mx = Some 0")
    case True
    with Suc.prems show ?thesis by (auto intro: advances_refl)
  next
    case mx: False
    have viaf: "\<exists>st'. advances st st'
        \<and> m_at st + (case mx of None \<Rightarrow> mn | Some j \<Rightarrow> min mn j) * l \<le> m_at st'
        \<and> k st' = Some res" if "f ?d st = Some res"
    proof -
      from soundD[OF f that] obtain st1 where st1: "advances st st1" "m_at st + l \<le> m_at st1"
        "?d st1 = Some res" by blast
      then have r: "rep n f greedy (mn - 1) ?mx' k st1 = Some res"
        by (auto split: if_splits)
      have "mn - 1 \<le> n" using Suc.prems by simp
      from Suc.IH[OF r this] obtain st' where st': "advances st1 st'"
        "m_at st1 + (case ?mx' of None \<Rightarrow> mn - 1 | Some j \<Rightarrow> min (mn - 1) j) * l \<le> m_at st'"
        "k st' = Some res" by blast
      have "(case mx of None \<Rightarrow> mn | Some j \<Rightarrow> min mn j) * l
          \<le> l + (case ?mx' of None \<Rightarrow> mn - 1 | Some j \<Rightarrow> min (mn - 1) j) * l"
        using mx by (cases mx; cases mn) (auto simp: min_def pred_mult_le)
      then have "m_at st + (case mx of None \<Rightarrow> mn | Some j \<Rightarrow> min mn j) * l \<le> m_at st'"
        using st1(2) st'(2) by linarith
      then show ?thesis using advances_trans[OF st1(1) st'(1)] st'(3) by blast
    qed
    show ?thesis
    proof (cases "0 < mn")
      case True
      then have "f ?d st = Some res" using Suc.prems mx by (simp add: Let_def)
      then show ?thesis by (rule viaf)
    next
      case False
      then have "f ?d st = Some res \<or> k st = Some res"
        using Suc.prems mx by (auto simp: Let_def split: if_splits option.splits)
      then show ?thesis
      proof
        assume "f ?d st = Some res" then show ?thesis by (rule viaf)
      next
        assume "k st = Some res"
        then show ?thesis using False by (auto intro: advances_refl split: option.splits)
      qed
    qed
  qed
qed

lemma matcher_sound: "sound (matcher_of r) (minlen r)"
proof (induction r)
  case Eps
  show ?case by (auto simp: sound_def intro: advances_refl)
next
  case (Cls P)
  show ?case unfolding sound_def
  proof (intro allI impI)
    fix k st res assume a: "matcher_of (Cls P) k st = Some res"
    then obtain c cs where c: "m_rest st = c # cs" "P c"
      "k (st\<lparr>m_at := m_at st + 1, m_prev := Some c, m_rest := cs\<rparr>) = Some res"
      by (auto split: list.splits if_splits)
    have "advances st (st\<lparr>m_at := m_at st + 1, m_prev := Some c, m_rest := cs\<rparr>)"
      unfolding advances_def using c(1) by (intro exI[of _ "[c]"]) simp
    then show "\<exists>st'. advances st st' \<and> m_at st + minlen (Cls P) \<le> m_at st' \<and> k st' = Some res"
      using c(3) by (intro exI[of _ "st\<lparr>m_at := m_at st + 1, m_prev := Some c, m_rest := cs\<rparr>"]) simp
  qed
next
  case (Seq a b)
  show ?case unfolding sound_def
  proof (intro allI impI)
    fix k st res assume "matcher_of (Seq a b) k st = Some res"
    then have "matcher_of a (matcher_of b k) st = Some res" by simp
    from soundD[OF Seq.IH(1) this] obtain st1 where st1: "advances st st1"
      "m_at st + minlen a \<le> m_at st1" "matcher_of b k st1 = Some res" by blast
    from soundD[OF Seq.IH(2) st1(3)] obtain st2 where st2: "advances st1 st2"
      "m_at st1 + minlen b \<le> m_at st2" "k st2 = Some res" by blast
    show "\<exists>st'. advances st st' \<and> m_at st + minlen (Seq a b) \<le> m_at st' \<and> k st' = Some res"
      using advances_trans[OF st1(1) st2(1)] st1(2) st2(2) st2(3) by (intro exI[of _ st2]) simp
  qed
next
  case (Alt a b)
  show ?case unfolding sound_def
  proof (intro allI impI)
    fix k st res assume "matcher_of (Alt a b) k st = Some res"
    then have "matcher_of a k st = Some res \<or> matcher_of b k st = Some res"
      by (auto split: option.splits)
    then show "\<exists>st'. advances st st' \<and> m_at st + minlen (Alt a b) \<le> m_at st' \<and> k st' = Some res"
    proof
      assume "matcher_of a k st = Some res"
      from soundD[OF Alt.IH(1) this] obtain st' where "advances st st'"
        "m_at st + minlen a \<le> m_at st'" "k st' = Some res" by blast
      then show ?thesis by (intro exI[of _ st']) simp
    next
      assume "matcher_of b k st = Some res"
      from soundD[OF Alt.IH(2) this] obtain st' where "advances st st'"
        "m_at st + minlen b \<le> m_at st'" "k st' = Some res" by blast
      then show ?thesis by (intro exI[of _ st']) simp
    qed
  qed
next
  case (Rep greedy mn mx a)
  show ?case unfolding sound_def
  proof (intro allI impI)
    fix k st res assume "matcher_of (Rep greedy mn mx a) k st = Some res"
    then have "rep (mn + length (m_rest st)) (matcher_of a) greedy mn mx k st = Some res" by simp
    from rep_sound[OF Rep.IH this]
    show "\<exists>st'. advances st st' \<and> m_at st + minlen (Rep greedy mn mx a) \<le> m_at st' \<and> k st' = Some res"
      by simp
  qed
next
  case (Grp g a)
  show ?case unfolding sound_def
  proof (intro allI impI)
    fix k st res assume "matcher_of (Grp g a) k st = Some res"
    then have "matcher_of a (\<lambda>st'. k (st'\<lparr>m_caps := (g, m_at st, m_at st') # m_caps st'\<rparr>)) st = Some res"
      by simp
    from soundD[OF Grp.IH this] obtain st1 where st1: "advances st st1"
      "m_at st + minlen a \<le> m_at st1" "k (st1\<lparr>m_caps := (g, m_at st, m_at st1) # m_caps st1\<rparr>) = Some res"
      by blast
    then show "\<exists>st'. advances st st' \<and> m_at st + minlen (Grp g a) \<le> m_at st' \<and> k st' = Some res"
      by (intro exI[of _ "st1\<lparr>m_caps := (g, m_at st, m_at st1) # m_caps st1\<rparr>"])
         (auto intro: advances_caps)
  qed
next
  case Bol
  show ?case by (auto simp: sound_def intro: advances_refl split: if_splits)
next
  case Eol
  show ?case by (auto simp: sound_def intro: advances_refl split: if_splits)
next
  case WordB
  show ?case by (auto simp: sound_def intro: advances_refl split: if_splits)
qed

lemma exec_scan_bounds:
  "exec_scan r i prev cs = Some mt \<Longrightarrow>
     i \<le> mt_index mt \<and> mt_index mt + minlen r \<le> mt_end mt \<and> mt_end mt \<le> i + length cs"
proof (induction r i prev cs rule: exec_scan.induct)
  case (1 r i prev)
  then obtain st where st: "matcher_of r Some \<lparr>m_at = i, m_prev = prev, m_rest = [], m_caps = []\<rparr> = Some st"
    "mt = \<lparr>mt_index = i, mt_end = m_at st, mt_caps = m_caps st\<rparr>"
    by (auto split: option.splits)
  from soundD[OF matcher_sound st(1)] show ?case using st(2)
    by (auto dest: advances_len)
next
  case (2 r i prev c cs)
  show ?case
  proof (cases "matcher_of r Some \<lparr>m_at = i, m_prev = prev, m_rest = c # cs, m_caps = []\<rparr>")
    case None
    with 2 show ?thesis by auto
  next
    case (Some st)
    with 2 have mt: "mt = \<lparr>mt_index = i, mt_end = m_at st, mt_caps = m_caps st\<rparr>" by simp
    from soundD[OF matcher_sound Some] show ?thesis using mt
      by (auto dest: advances_len)
  qed
qed

lemma exec_bounds:
  "exec r s i = Some mt \<Longrightarrow>
     i \<le> mt_index mt \<and> mt_index mt + minlen r \<le> mt_end mt \<and> mt_end mt \<le> length s"
  unfolding exec_def by (auto split: if_splits dest!: exec_scan_bounds)

text \<open>The loop \<open>while ((match = re.exec(text)) != null)\<close> over a pattern with the
  \<open>g\<close> flag, from \<open>lastIndex\<close> on, as the list of its matches. Each \<open>exec\<close> leaves
  \<open>lastIndex\<close> at the end of its match; a match that leaves it where it was is found
  again by every later \<open>exec\<close>, and the loop does not end: \<open>None\<close>. The loop leaves
  \<open>lastIndex\<close> at \<open>0\<close>, so every such loop over a pattern starts there.\<close>

function execAll :: "regex \<Rightarrow> string \<Rightarrow> nat \<Rightarrow> regmatch list option" where
  "execAll r s lastIndex =
     (case exec r s lastIndex of
        None \<Rightarrow> Some []
      | Some mt \<Rightarrow>
          if mt_end mt \<le> lastIndex then None
          else map_option (Cons mt) (execAll r s (mt_end mt)))"
  by pat_completeness auto
termination
proof (relation "measure (\<lambda>(r, s, lastIndex). length s - lastIndex)")
  show "wf (measure (\<lambda>(r, s, lastIndex). length s - lastIndex))" by simp
next
  fix r :: regex and s lastIndex mt
  assume "exec r s lastIndex = Some mt" "\<not> mt_end mt \<le> lastIndex"
  then show "((r, s, mt_end mt), (r, s, lastIndex))
       \<in> measure (\<lambda>(r, s, lastIndex). length s - lastIndex)"
    using exec_bounds[of r s lastIndex mt] by (simp, linarith)
qed

declare execAll.simps [simp del]

section \<open>Position index\<close>

text \<open>The module-level variables \<open>LINE_NUMBERS\<close> and \<open>TEXT_LENGTH\<close>.\<close>

record line_index =
  LINE_NUMBERS :: "int list"
  TEXT_LENGTH :: int

text \<open>The loop of \<open>obtainLineNumbers\<close>: push the current index, then advance it by
  the length of the line plus one for the stripped newline.\<close>

fun lineNumbers_loop :: "int \<Rightarrow> string list \<Rightarrow> int list" where
  "lineNumbers_loop currentIndex [] = []"
| "lineNumbers_loop currentIndex (l # ls) =
     currentIndex # lineNumbers_loop (currentIndex + int (length l) + 1) ls"

definition obtainLineNumbers :: "string \<Rightarrow> line_index" where
  "obtainLineNumbers text =
     \<lparr>LINE_NUMBERS = lineNumbers_loop 0 (split_chr newline text),
      TEXT_LENGTH = int (length text)\<rparr>"

text \<open>\<open>CodeMirror.Pos(line, ch)\<close>.\<close>

record pos =
  line :: int
  ch :: jsnum

text \<open>The loop of \<open>getLinePos\<close> from iteration \<open>i\<close> on; \<open>None\<close> is the \<open>null\<close> returned
  after the loop. In the first branch at \<open>i = 0\<close> the source reads \<open>LINE_NUMBERS[-1]\<close>,
  which is \<open>undefined\<close>, and the column is \<open>NaN\<close>.\<close>

function getLinePos_loop :: "line_index \<Rightarrow> int \<Rightarrow> nat \<Rightarrow> pos option" where
  "getLinePos_loop ix index i =
     (if i < length (LINE_NUMBERS ix) then
        if index < LINE_NUMBERS ix ! i then
          Some \<lparr>line = int i - 1,
                ch = (if i = 0 then NaN else Num (index - LINE_NUMBERS ix ! (i - 1)))\<rparr>
        else if index = LINE_NUMBERS ix ! i then
          Some \<lparr>line = int i, ch = Num (index - LINE_NUMBERS ix ! i)\<rparr>
        else if i = length (LINE_NUMBERS ix) - 1 \<and> index \<le> TEXT_LENGTH ix then
          Some \<lparr>line = int i, ch = Num (index - LINE_NUMBERS ix ! i)\<rparr>
        else getLinePos_loop ix index (i + 1)
      else None)"
  by pat_completeness auto
termination
  by (relation "measure (\<lambda>(ix, index, i). length (LINE_NUMBERS ix) - i)") auto

declare getLinePos_loop.simps [simp del]

text \<open>\<open>getLinePos\<close>. For an index that is \<open>NaN\<close> every comparison of the loop is
  false, and the loop ends without a position.\<close>

definition getLinePos :: "line_index \<Rightarrow> jsnum \<Rightarrow> pos option" where
  "getLinePos ix v = (case v of NaN \<Rightarrow> None | Num index \<Rightarrow> getLinePos_loop ix index 0)"

text \<open>Reconstructing the absolute offset from a position, through the same index.\<close>

definition offsetOf :: "line_index \<Rightarrow> pos \<Rightarrow> jsnum" where
  "offsetOf ix p =
     (case ch p of
        NaN \<Rightarrow> NaN
      | Num c \<Rightarrow>
          if 0 \<le> line p \<and> nat (line p) < length (LINE_NUMBERS ix)
          then Num (LINE_NUMBERS ix ! nat (line p) + c) else NaN)"

section \<open>String methods and values of the host language\<close>

text \<open>\<open>substring\<close> clamps both arguments to the string and swaps them when the first
  is the larger; \<open>indexOf\<close> is \<open>-1\<close> when there is no occurrence; \<open>charAt\<close> out of
  range is the empty string.\<close>

definition js_substring :: "string \<Rightarrow> int \<Rightarrow> int \<Rightarrow> string" where
  "js_substring s start stop =
     (let n = int (length s);
          a = max 0 (min start n);
          b = max 0 (min stop n)
      in take (nat (max a b - min a b)) (drop (nat (min a b)) s))"

definition js_substring_from :: "string \<Rightarrow> int \<Rightarrow> string" where
  "js_substring_from s start = js_substring s start (int (length s))"

fun indexOf_scan :: "string \<Rightarrow> string \<Rightarrow> int \<Rightarrow> int" where
  "indexOf_scan sub [] i = (if sub = [] then i else - 1)"
| "indexOf_scan sub (c # cs) i =
     (if take (length sub) (c # cs) = sub then i else indexOf_scan sub cs (i + 1))"

definition js_indexOf :: "string \<Rightarrow> string \<Rightarrow> int" where
  "js_indexOf s sub = indexOf_scan sub s 0"

definition js_charAt :: "string \<Rightarrow> int \<Rightarrow> string" where
  "js_charAt s i = (if 0 \<le> i \<and> i < int (length s) then [s ! nat i] else [])"

text \<open>A value that may be \<open>undefined\<close> or \<open>null\<close>, and what string conversion makes of
  it. A capture group that took no part in a match is \<open>undefined\<close>.\<close>

datatype 'a jsopt = Undefined | Null | Def 'a

definition str_of :: "string jsopt \<Rightarrow> string" where
  "str_of v = (case v of Undefined \<Rightarrow> ''undefined'' | Null \<Rightarrow> ''null'' | Def s \<Rightarrow> s)"

definition str_of_group :: "string option \<Rightarrow> string" where
  "str_of_group v = (case v of None \<Rightarrow> ''undefined'' | Some s \<Rightarrow> s)"

definition truthy :: "string option \<Rightarrow> bool" where
  "truthy v = (case v of None \<Rightarrow> False | Some s \<Rightarrow> s \<noteq> [])"

text \<open>An integer in a message, in decimal.\<close>

definition digit_chr :: "nat \<Rightarrow> char" where
  "digit_chr d = char_of (48 + d)"

function digits :: "nat \<Rightarrow> string" where
  "digits n = (if n < 10 then [digit_chr n] else digits (n div 10) @ [digit_chr (n mod 10)])"
  by pat_completeness auto
termination
  by (relation "measure id") auto

declare digits.simps [simp del]

definition show_int :: "int \<Rightarrow> string" where
  "show_int i = (if i < 0 then CHR ''-'' # digits (nat (- i)) else digits (nat i))"

section \<open>Findings, declarations and bindings\<close>

datatype severity = Warning | Error

text \<open>A raw finding, as the rules push it: the offending text, its offset, the severity
  and the message. The offset is a number; \<open>LINE_NUMBERS[i]\<close> read out of range would
  be \<open>undefined\<close>, which every comparison and sum of \<open>getLinePos\<close> treats as \<open>NaN\<close>.\<close>

record finding =
  e_code :: string
  e_index :: jsnum
  e_severity :: severity
  e_message :: string

text \<open>A function or type body, as \<open>extractBodies\<close> makes it; \<open>getFunctionParameters\<close>
  adds \<open>paramCount\<close> and \<open>params\<close>, which are \<open>undefined\<close> before.\<close>

record body =
  b_code :: string
  b_name :: string
  b_index :: int
  b_type :: string
  b_maxDepth :: int
  b_paramCount :: "int jsopt"
  b_params :: "string jsopt"

record variable =
  v_name :: string
  v_staticImmutable :: bool
  v_index :: int

text \<open>The diagnostic handed to the editor.\<close>

record diagnostic =
  d_severity :: severity
  d_message :: string
  d_from :: pos
  d_to :: pos

section \<open>Function-based rules\<close>

subsection \<open>Cyclomatic complexity\<close>

text \<open>\<^verbatim>\<open>/\b(if|func|while|for|guard|case|switch|fallthrough)\b/g\<close>\<close>

definition keyRegex :: regex where
  "keyRegex =
     Seqs [WordB,
           Grp 1 (Alts (map Lit [''if'', ''func'', ''while'', ''for'', ''guard'', ''case'',
                                 ''switch'', ''fallthrough''])),
           WordB]"

text \<open>The table \<open>keywordCount\<close> after the loop over the matches: every match adds one to
  the entry of the matched text. The table starts with \<open>0\<close> under each of the eight
  keywords, which are the only entries read.\<close>

definition keywordCount :: "string \<Rightarrow> regmatch list \<Rightarrow> string \<Rightarrow> int" where
  "keywordCount funcBody ms =
     fold (\<lambda>mt kc. kc(matched funcBody mt := kc (matched funcBody mt) + 1)) ms (\<lambda>k. 0)"

definition complexity_of_counts :: "(string \<Rightarrow> int) \<Rightarrow> int" where
  "complexity_of_counts kc =
     (let currentComplexity =
            0 + kc ''if'' + kc ''func'' + kc ''while'' + kc ''for'' + kc ''guard''
      in if kc ''switch'' > 0 then
           let switchComplexity = kc ''case'' - kc ''fallthrough''
           in if switchComplexity > 0 then currentComplexity + switchComplexity
              else currentComplexity
         else currentComplexity)"

definition currentComplexity :: "string \<Rightarrow> int option" where
  "currentComplexity funcBody =
     map_option (\<lambda>ms. complexity_of_counts (keywordCount funcBody ms))
       (execAll keyRegex funcBody 0)"

definition complexity_message :: "string \<Rightarrow> int \<Rightarrow> string" where
  "complexity_message name c =
     ''Cyclomatic complexity should have complexity of 10 or less; '' @
     ''the current complexity of the function '' @ name @ '' is '' @ show_int c @ ''.''"

fun cyclomaticComplexityRule :: "string \<Rightarrow> body list \<Rightarrow> finding list option" where
  "cyclomaticComplexityRule text [] = Some []"
| "cyclomaticComplexityRule text (f # functions) =
     do {
       c \<leftarrow> currentComplexity (b_code f);
       foundErrors \<leftarrow> cyclomaticComplexityRule text functions;
       Some (if c > 10 then
               \<lparr>e_code = b_code f, e_index = Num (b_index f),
                e_severity = (if c > 20 then Error else Warning),
                e_message = complexity_message (b_name f) c\<rparr> # foundErrors
             else foundErrors)
     }"

subsection \<open>Body length, parameter count, line length, nesting\<close>

fun functionBodyLengthRule :: "string \<Rightarrow> body list \<Rightarrow> finding list" where
  "functionBodyLengthRule text [] = []"
| "functionBodyLengthRule text (f # functions) =
     (let lineArray = split_chr newline (b_code f)
      in if length lineArray > 40 then
           [\<lparr>e_code = b_code f, e_index = Num (b_index f),
             e_severity = (if length lineArray > 100 then Error else Warning),
             e_message = ''Functions bodies should not span too many lines. The function '' @
                         b_name f @ '' currently has '' @
                         show_int (int (length lineArray)) @ '' lines.''\<rparr>]
         else []) @ functionBodyLengthRule text functions"

text \<open>\<open>paramCount > n\<close>: a comparison with \<open>undefined\<close> is false.\<close>

definition count_above :: "int jsopt \<Rightarrow> int \<Rightarrow> bool" where
  "count_above v n = (case v of Undefined \<Rightarrow> False | Null \<Rightarrow> 0 > n | Def c \<Rightarrow> c > n)"

definition show_count :: "int jsopt \<Rightarrow> string" where
  "show_count v = (case v of Undefined \<Rightarrow> ''undefined'' | Null \<Rightarrow> ''null'' | Def c \<Rightarrow> show_int c)"

fun functionParameterCountRule :: "string \<Rightarrow> body list \<Rightarrow> finding list" where
  "functionParameterCountRule text [] = []"
| "functionParameterCountRule text (f # functions) =
     (if count_above (b_paramCount f) 5 then
        [\<lparr>e_code = b_code f, e_index = Num (b_index f),
          e_severity = (if count_above (b_paramCount f) 8 then Error else Warning),
          e_message = ''Number of function parameters should be low. The function '' @
                      b_name f @ '' currently has '' @ show_count (b_paramCount f) @
                      '' parameters.''\<rparr>]
      else []) @ functionParameterCountRule text functions"

text \<open>\<open>lineLengthRule\<close> reads the line starts from the module-level index; \<open>i\<close> is the
  number of the first line of \<open>splitLines\<close> still to test.\<close>

definition lineLengthMessage :: "string \<Rightarrow> string" where
  "lineLengthMessage currentLine =
     ''Lines should not span too many characters. This line '' @
     ''currently has '' @ show_int (int (length currentLine)) @ '' characters.''"

definition line_start :: "line_index \<Rightarrow> nat \<Rightarrow> jsnum" where
  "line_start ix i = (if i < length (LINE_NUMBERS ix) then Num (LINE_NUMBERS ix ! i) else NaN)"

fun lineLength_loop :: "line_index \<Rightarrow> nat \<Rightarrow> string list \<Rightarrow> finding list" where
  "lineLength_loop ix i [] = []"
| "lineLength_loop ix i (currentLine # splitLines) =
     (if length currentLine > 100 then
        [\<lparr>e_code = currentLine, e_index = line_start ix i,
          e_severity = (if length currentLine > 200 then Error else Warning),
          e_message = lineLengthMessage currentLine\<rparr>]
      else []) @ lineLength_loop ix (i + 1) splitLines"

definition lineLengthRule :: "line_index \<Rightarrow> string \<Rightarrow> finding list" where
  "lineLengthRule ix text = lineLength_loop ix 0 (split_chr newline text)"

fun nestingFuncRule :: "string \<Rightarrow> body list \<Rightarrow> finding list" where
  "nestingFuncRule text [] = []"
| "nestingFuncRule text (f # functions) =
     (if b_maxDepth f > 5 then
        [\<lparr>e_code = b_code f, e_index = Num (b_index f), e_severity = Warning,
          e_message = ''Functions should not be nested more than five levels deep. '' @
                      ''The function '' @ b_name f @ '' has a maximum depth of '' @
                      show_int (b_maxDepth f) @ '' levels.''\<rparr>]
      else []) @ nestingFuncRule text functions"

subsection \<open>Variable names\<close>

text \<open>\<^verbatim>\<open>/\w+/g\<close>. The tuple is converted to a string first, so \<open>undefined\<close> and \<open>null\<close>
  parameters are searched as the words they print as.\<close>

definition varRegex :: regex where
  "varRegex = Many1 (Cls is_word)"

definition getVariablesFromTuples ::
    "string jsopt \<Rightarrow> int \<Rightarrow> bool \<Rightarrow> variable list option" where
  "getVariablesFromTuples tuple tupleIndex staticImmutable =
     map_option
       (map (\<lambda>mt. \<lparr>v_name = matched (str_of tuple) mt,
                    v_staticImmutable = staticImmutable,
                    v_index = int (mt_index mt) + tupleIndex\<rparr>))
       (execAll varRegex (str_of tuple) 0)"

text \<open>\<^verbatim>\<open>/^_?(?:[a-z][A-Za-z0-9]*|[A-Z0-9]+)$/\<close> and \<^verbatim>\<open>/^_?[A-Za-z][A-Za-z0-9]*$/\<close>\<close>

definition immutableTest :: regex where
  "immutableTest =
     Seqs [Bol, Maybe (Chr CHR ''_''),
           Alt (Seq (Cls is_lower) (Many (Cls is_alnum)))
               (Many1 (Cls (\<lambda>c. is_upper c \<or> is_digit c))),
           Eol]"

definition mutableTest :: regex where
  "mutableTest =
     Seqs [Bol, Maybe (Chr CHR ''_''), Cls (\<lambda>c. is_upper c \<or> is_lower c),
           Many (Cls is_alnum), Eol]"

definition tooShortMessage :: string where
  "tooShortMessage = ''Variable names should be at least three characters long.''"

definition tooLongMessage :: string where
  "tooLongMessage = ''Variable names should not be more than 40 characters long.''"

definition mutableShapeMessage :: string where
  "mutableShapeMessage =
     ''Variable names should only contain alphanumeric characters. '' @
     ''Mutable variable names should either start with a lowercase letter '' @
     ''or only contain capital letters.''"

definition immutableShapeMessage :: string where
  "immutableShapeMessage = ''Variable names should only contain alphanumeric characters.''"

text \<open>\<open>testVariableName\<close>: the finding for a binding, \<open>None\<close> for the \<open>null\<close> it returns
  when nothing is wrong.\<close>

definition testVariableName :: "variable \<Rightarrow> finding option" where
  "testVariableName v =
     (let errorObject = \<lparr>e_code = v_name v, e_index = Num (v_index v),
                         e_severity = Warning, e_message = []\<rparr>
      in if length (v_name v) < 3 then
           Some (errorObject\<lparr>e_severity := (if length (v_name v) < 2 then Error else Warning),
                             e_message := tooShortMessage\<rparr>)
         else if length (v_name v) > 40 then
           Some (errorObject\<lparr>e_severity := (if length (v_name v) > 60 then Error else Warning),
                             e_message := tooLongMessage\<rparr>)
         else if \<not> v_staticImmutable v then
           if \<not> test immutableTest (v_name v)
           then Some (errorObject\<lparr>e_message := mutableShapeMessage\<rparr>)
           else None
         else
           if \<not> test mutableTest (v_name v)
           then Some (errorObject\<lparr>e_message := immutableShapeMessage\<rparr>)
           else None)"

text \<open>\<^verbatim>\<open>/(static)?\s*(var|let)\s+(?:(\w+)|\(((?:\w+(?:\,\s+)?)+)\))/g\<close>\<close>

definition variableRegex :: regex where
  "variableRegex =
     Seqs [Maybe (Grp 1 (Lit ''static'')), Many (Cls is_space),
           Grp 2 (Alt (Lit ''var'') (Lit ''let'')), Many1 (Cls is_space),
           Alt (Grp 3 (Many1 (Cls is_word)))
               (Seqs [Chr CHR ''('',
                      Grp 4 (Many1 (Seq (Many1 (Cls is_word))
                                        (Maybe (Seq (Chr CHR '','') (Many1 (Cls is_space)))))),
                      Chr CHR '')''])]"

text \<open>The body of the loop over the declarations of the text, for one match: the
  bindings it adds to \<open>allVariables\<close>. \<open>matchText.charAt\<close> on an \<open>undefined\<close>
  \<open>matchText\<close> throws a TypeError: \<open>None\<close>.\<close>

definition declared_variables :: "string \<Rightarrow> regmatch \<Rightarrow> variable list option" where
  "declared_variables text mt =
     (let staticImmutable = (truthy (capture text mt 1) \<and> capture text mt 2 = Some ''let'');
          matchText = (if truthy (capture text mt 4) then capture text mt 4
                       else capture text mt 3);
          varIndex = js_indexOf (js_substring_from text (int (mt_index mt)))
                       (str_of_group matchText) + int (mt_index mt)
      in case matchText of
           None \<Rightarrow> None
         | Some matchText0 \<Rightarrow>
             let stripped = (js_charAt matchText0 0 = ''_'');
                 matchText1 = (if stripped then js_substring_from matchText0 1 else matchText0);
                 varIndex1 = (if stripped then varIndex + 1 else varIndex)
             in if truthy (capture text mt 4)
                then getVariablesFromTuples (Def matchText1) varIndex1 staticImmutable
                else Some [\<lparr>v_name = matchText1, v_staticImmutable = staticImmutable,
                             v_index = varIndex1\<rparr>])"

fun declared_loop :: "string \<Rightarrow> regmatch list \<Rightarrow> variable list option" where
  "declared_loop text [] = Some []"
| "declared_loop text (mt # ms) =
     do {
       vs \<leftarrow> declared_variables text mt;
       allVariables \<leftarrow> declared_loop text ms;
       Some (vs @ allVariables)
     }"

text \<open>The loop over the functions: the bindings of their parameters.\<close>

fun parameter_variables :: "body list \<Rightarrow> variable list option" where
  "parameter_variables [] = Some []"
| "parameter_variables (currentFunc # functions) =
     do {
       vs \<leftarrow> getVariablesFromTuples (b_params currentFunc)
               (b_index currentFunc + js_indexOf (b_code currentFunc) ''('' + 1) False;
       allVariables \<leftarrow> parameter_variables functions;
       Some (vs @ allVariables)
     }"

definition variableNameRule :: "string \<Rightarrow> body list \<Rightarrow> finding list option" where
  "variableNameRule text functions =
     do {
       ms \<leftarrow> execAll variableRegex text 0;
       declared \<leftarrow> declared_loop text ms;
       params \<leftarrow> parameter_variables functions;
       Some (List.map_filter testVariableName (declared @ params))
     }"

section \<open>Type-based rules\<close>

fun nestingTypeRule :: "string \<Rightarrow> body list \<Rightarrow> finding list" where
  "nestingTypeRule text [] = []"
| "nestingTypeRule text (t # types) =
     (if b_maxDepth t > 1 then
        [\<lparr>e_code = b_code t, e_index = Num (b_index t), e_severity = Warning,
          e_message = ''Types should not be nested more than one level deep. The '' @
                      b_type t @ '' '' @ b_name t @ '' has a maximum depth of '' @
                      show_int (b_maxDepth t) @ '' levels.''\<rparr>]
      else []) @ nestingTypeRule text types"

fun typeBodyLengthRule :: "string \<Rightarrow> body list \<Rightarrow> finding list" where
  "typeBodyLengthRule text [] = []"
| "typeBodyLengthRule text (t # types) =
     (let lineArray = split_chr newline (b_code t)
      in if length lineArray > 200 then
           [\<lparr>e_code = b_code t, e_index = Num (b_index t),
             e_severity = (if length lineArray > 350 then Error else Warning),
             e_message = ''Type bodies should not span too many lines. The '' @
                         b_type t @ '' '' @ b_name t @ '' currently has '' @
                         show_int (int (length lineArray)) @ '' lines.''\<rparr>]
         else []) @ typeBodyLengthRule text types"

text \<open>\<^verbatim>\<open>/typealias\s+(\w+)/g\<close> and \<^verbatim>\<open>/^[A-Z][A-Za-z0-9]{2,39}$/\<close>\<close>

definition typealiasRegex :: regex where
  "typealiasRegex = Seqs [Lit ''typealias'', Many1 (Cls is_space), Grp 1 (Many1 (Cls is_word))]"

definition typeNameTest :: regex where
  "typeNameTest = Seqs [Bol, Cls is_upper, Rep True 2 (Some 39) (Cls is_alnum), Eol]"

definition typeNameMessage :: string where
  "typeNameMessage =
     ''Type names should contain only alphanumeric characters, '' @
     ''begin with an uppercase letter and span between 3 and 40 '' @
     ''characters in length.''"

text \<open>\<open>allTypes\<close> holds the types and the aliases; the loop reads the code, the offset and
  the name of each.\<close>

fun typeName_loop :: "(string \<times> int \<times> string) list \<Rightarrow> finding list" where
  "typeName_loop [] = []"
| "typeName_loop ((code, index, typeName) # allTypes) =
     (if \<not> test typeNameTest typeName then
        [\<lparr>e_code = code, e_index = Num index, e_severity = Warning,
          e_message = typeNameMessage\<rparr>]
      else []) @ typeName_loop allTypes"

definition typeNameRule :: "string \<Rightarrow> body list \<Rightarrow> finding list option" where
  "typeNameRule text types =
     do {
       ms \<leftarrow> execAll typealiasRegex text 0;
       let typealiases = map (\<lambda>mt. (matched text mt, int (mt_index mt),
                                      str_of_group (capture text mt 1))) ms;
       Some (typeName_loop (map (\<lambda>t. (b_code t, b_index t, b_name t)) types @ typealiases))
     }"

section \<open>Regex-based rules\<close>

text \<open>A rule of the pattern family: its patterns, its exception patterns (\<open>None\<close> where
  the rule has no such field), its severity and its message.\<close>

record regex_rule =
  rePatterns :: "regex list"
  exceptions :: "regex list option"
  rule_severity :: severity
  rule_message :: string

definition Space :: regex where
  "Space = Cls is_space"

definition NotSpace :: regex where
  "NotSpace = Cls (\<lambda>c. \<not> is_space c)"

text \<open>\<^verbatim>\<open>/\}[ \t]+\)/g\<close>\<close>

definition closingBraceRule :: regex_rule where
  "closingBraceRule =
     \<lparr>rePatterns = [Seqs [Chr CHR ''}'', Many1 (Cls (\<lambda>c. c = CHR '' '' \<or> c = CHR 0x09)),
                          Chr CHR '')'']],
      exceptions = None,
      rule_severity = Warning,
      rule_message = ''Closing brace with closing parenthesis should not have any '' @
                     ''whitespace in the middle.''\<rparr>"

text \<open>\<^verbatim>\<open>/(\w)(?:\s+:\s*|:(?:\s{0}))([\[|\(]*\S)/g\<close>\<close>

definition colonRule :: regex_rule where
  "colonRule =
     \<lparr>rePatterns = [Seqs [Grp 1 (Cls is_word),
                          Alt (Seqs [Many1 Space, Chr CHR '':'', Many Space])
                              (Seq (Chr CHR '':'') (Rep True 0 (Some 0) Space)),
                          Grp 2 (Seq (Many (OneOf ''[|('')) NotSpace)]],
      exceptions = None,
      rule_severity = Warning,
      rule_message = ''Colons should be next to the identifier when specifying a type '' @
                     ''and the type should not be immediately next to the colon.''\<rparr>"

text \<open>\<^verbatim>\<open>/\S(\s+,[\s\t\p{Z}]*|,(?:[\s\t\p{Z}]{0}|[\s\t\p{Z}]{2,}))(\S)/g\<close>. The pattern has
  no \<open>u\<close> flag, so \<^verbatim>\<open>\p{Z}\<close> in the class stands for the four characters \<open>p\<close>, \<open>{\<close>,
  \<open>Z\<close> and \<open>}\<close>.\<close>

definition SpaceZ :: regex where
  "SpaceZ = Cls (\<lambda>c. is_space c \<or> c \<in> set ''p{Z}'')"

definition commaRule :: regex_rule where
  "commaRule =
     \<lparr>rePatterns = [Seqs [NotSpace,
                          Grp 1 (Alt (Seqs [Many1 Space, Chr CHR '','', Many SpaceZ])
                                     (Seq (Chr CHR '','')
                                          (Alt (Rep True 0 (Some 0) SpaceZ)
                                               (Rep True 2 None SpaceZ)))),
                          Grp 2 NotSpace]],
      exceptions = None,
      rule_severity = Warning,
      rule_message = ''There should be no space before and one after any comma.''\<rparr>"

text \<open>\<^verbatim>\<open>/(guard|if)[^\n]*return[^\n]\n*/g\<close>\<close>

definition conditionalReturnsOnNewlineRule :: regex_rule where
  "conditionalReturnsOnNewlineRule =
     \<lparr>rePatterns = [Seqs [Grp 1 (Alt (Lit ''guard'') (Lit ''if'')), Many (NoneOf [newline]),
                          Lit ''return'', NoneOf [newline], Many (Chr newline)]],
      exceptions = None,
      rule_severity = Warning,
      rule_message = ''Conditional statements should always return on the next line.''\<rparr>"

text \<open>\<^verbatim>\<open>/guard\s*\([^,{]*\)\s*else\s*\s{/g\<close>, where the last brace is a literal one, and
  \<^verbatim>\<open>/KEYWORD\s*\([^,{]*\)\s*\{/g\<close> for \<open>if\<close>, \<open>for\<close>, \<open>switch\<close> and \<open>while\<close>.\<close>

definition parenthesised :: "string \<Rightarrow> regex" where
  "parenthesised keyword =
     Seqs [Lit keyword, Many Space, Chr CHR ''('', Many (NoneOf '',{''), Chr CHR '')'',
           Many Space, Chr CHR ''{'']"

definition controlStatementRule :: regex_rule where
  "controlStatementRule =
     \<lparr>rePatterns =
        [Seqs [Lit ''guard'', Many Space, Chr CHR ''('', Many (NoneOf '',{''), Chr CHR '')'',
               Many Space, Lit ''else'', Many Space, Space, Chr CHR ''{''],
         parenthesised ''if'', parenthesised ''for'', parenthesised ''switch'',
         parenthesised ''while''],
      exceptions = None,
      rule_severity = Warning,
      rule_message = ''Conditional statements should not wrap their conditionals '' @
                     ''in parentheses.''\<rparr>"

text \<open>\<^verbatim>\<open>/\.count\s*(==|!=|<|<=|>|>=)\s*0/g\<close>\<close>

definition emptyCountRule :: regex_rule where
  "emptyCountRule =
     \<lparr>rePatterns = [Seqs [Lit ''.count'', Many Space,
                          Grp 1 (Alts (map Lit [''=='', ''!='', ''<'', ''<='', ''>'', ''>=''])),
                          Many Space, Chr CHR ''0'']],
      exceptions = None,
      rule_severity = Error,
      rule_message = ''Prefer checking '' @ [CHR 0x27] @ ''isEmpty'' @ [CHR 0x27] @
                     '' over comparing '' @ [CHR 0x27] @ ''count'' @ [CHR 0x27] @
                     '' to zero.''\<rparr>"

definition forceCastRule :: regex_rule where
  "forceCastRule =
     \<lparr>rePatterns = [Lit ''as!''], exceptions = None, rule_severity = Error,
      rule_message = ''Force casts should be avoided.''\<rparr>"

definition forceTryRule :: regex_rule where
  "forceTryRule =
     \<lparr>rePatterns = [Lit ''try!''], exceptions = None, rule_severity = Error,
      rule_message = ''Force tries should be avoided.''\<rparr>"

text \<open>\<^verbatim>\<open>/^[\s]+/g\<close>\<close>

definition leadingWhitespaceRule :: regex_rule where
  "leadingWhitespaceRule =
     \<lparr>rePatterns = [Seq Bol (Many1 Space)], exceptions = None, rule_severity = Warning,
      rule_message = ''Files should not contain leading whitespace.''\<rparr>"

definition legacyNSGeometryFunctions :: "string list" where
  "legacyNSGeometryFunctions =
     [''NSWidth'', ''NSHeight'', ''NSMinX'', ''NSMidX'', ''NSMaxX'', ''NSMinY'',
      ''NSMidY'', ''NSMaxY'', ''NSEqualRects'', ''NSEqualSizes'', ''NSEqualPoints'',
      ''NSEdgeInsetsEqual'', ''NSIsEmptyRect'', ''NSIntegralRect'',
      ''NSInsetRect'', ''NSOffsetRect'', ''NSUnionRect'', ''NSIntersectionRect'',
      ''NSContainsRect'', ''NSPointInRect'', ''NSIntersectsRect'']"

definition legacyNSGeometryFunctionsRule :: regex_rule where
  "legacyNSGeometryFunctionsRule =
     \<lparr>rePatterns = [Seqs [WordB, Grp 1 (Alts (map Lit legacyNSGeometryFunctions)), WordB]],
      exceptions = None,
      rule_severity = Warning,
      rule_message = ''Struct extension properties and methods are preferred over '' @
                     ''legacy functions.''\<rparr>"

text \<open>\<^verbatim>\<open>/((?:[^\( ]|[\s\(][\s]+)\{)/g\<close>, with the exception
  \<^verbatim>\<open>/(?:if|guard|while)\n[^\{]+?[\s\t\n]\{/g\<close>\<close>

definition openingBracePattern :: regex where
  "openingBracePattern =
     Grp 1 (Seq (Alt (NoneOf ''( '')
                     (Seq (Cls (\<lambda>c. is_space c \<or> c = CHR ''('')) (Many1 Space)))
                (Chr CHR ''{''))"

definition openingBraceException :: regex where
  "openingBraceException =
     Seqs [Alts [Lit ''if'', Lit ''guard'', Lit ''while''], Chr newline,
           LazyMany1 (NoneOf ''{''), Space, Chr CHR ''{'']"

definition openingBraceRule :: regex_rule where
  "openingBraceRule =
     \<lparr>rePatterns = [openingBracePattern],
      exceptions = Some [openingBraceException],
      rule_severity = Warning,
      rule_message = ''Opening braces should be preceded by a single space and on the same '' @
                     ''line as the declaration.''\<rparr>"

text \<open>\<^verbatim>\<open>/\?\?\s*nil\b/g\<close>\<close>

definition redundantNilCoalescingRule :: regex_rule where
  "redundantNilCoalescingRule =
     \<lparr>rePatterns = [Seqs [Lit ''??'', Many Space, Lit ''nil'', WordB]],
      exceptions = None,
      rule_severity = Warning,
      rule_message = ''nil coalescing operator is only evaluated if the left hand side '' @
                     ''is nil; coalescing operator with nil as right hand side is redundant.''\<rparr>"

text \<open>The return arrow pattern is put together from strings: \<open>spaceRegex\<close> is
  \<^verbatim>\<open>[ \f\r\t]\<close>, \<open>incorrectSpaceRegex\<close> is \<^verbatim>\<open>(S{0}|S{2,})\<close> over it, and the pattern is
  \<^verbatim>\<open>\)(P1|P2|P3|P4)\S+\<close> with the four \<open>returnArrowPatterns\<close>. The groups are numbered
  by their opening parentheses.\<close>

definition spaceRegex :: regex where
  "spaceRegex = Cls (\<lambda>c. c = CHR '' '' \<or> c = CHR 0x0C \<or> c = CHR 0x0D \<or> c = CHR 0x09)"

definition incorrectSpaceRegex :: "nat \<Rightarrow> regex" where
  "incorrectSpaceRegex g =
     Grp g (Alt (Rep True 0 (Some 0) spaceRegex) (Rep True 2 None spaceRegex))"

definition returnArrowPatterns :: "regex list" where
  "returnArrowPatterns =
     [Grp 2 (Seqs [incorrectSpaceRegex 3, Lit ''->'', Many spaceRegex]),
      Grp 4 (Seqs [spaceRegex, Lit ''->'', incorrectSpaceRegex 5]),
      Seqs [Chr newline, Many spaceRegex, Lit ''->'', incorrectSpaceRegex 6],
      Seqs [incorrectSpaceRegex 7, Lit ''->'', Chr newline, Many spaceRegex]]"

definition returnArrowWhiteSpaceRule :: regex_rule where
  "returnArrowWhiteSpaceRule =
     \<lparr>rePatterns = [Seqs [Chr CHR '')'', Grp 1 (Alts returnArrowPatterns), Many1 NotSpace]],
      exceptions = None,
      rule_severity = Warning,
      rule_message = ''Return arrow and return type should be separated by a single space '' @
                     ''or on a separate line.''\<rparr>"

text \<open>\<^verbatim>\<open>/[^\n]+$|\n{2,}$/g\<close>, \<^verbatim>\<open>/;\n|;$/g\<close>, \<^verbatim>\<open>/[^\S\n](?:\n|$)/g\<close> and
  \<^verbatim>\<open>/\n(?:[^\S\n]*\n){2,}/g\<close>\<close>

definition trailingNewlineRule :: regex_rule where
  "trailingNewlineRule =
     \<lparr>rePatterns = [Alt (Seq (Many1 (NoneOf [newline])) Eol)
                         (Seq (Rep True 2 None (Chr newline)) Eol)],
      exceptions = None,
      rule_severity = Warning,
      rule_message = ''Files should have a single trailing newline.''\<rparr>"

definition trailingSemicolonRule :: regex_rule where
  "trailingSemicolonRule =
     \<lparr>rePatterns = [Alt (Seq (Chr CHR '';'') (Chr newline)) (Seq (Chr CHR '';'') Eol)],
      exceptions = None,
      rule_severity = Warning,
      rule_message = ''Lines should not end with a trailing semicolon.''\<rparr>"

definition BlankNotNewline :: regex where
  "BlankNotNewline = Cls (\<lambda>c. \<not> (\<not> is_space c \<or> c = newline))"

definition trailingWhitespaceRule :: regex_rule where
  "trailingWhitespaceRule =
     \<lparr>rePatterns = [Seq BlankNotNewline (Alt (Chr newline) Eol)],
      exceptions = None,
      rule_severity = Warning,
      rule_message = ''Lines should not end with trailing whitespace.''\<rparr>"

definition verticalWhitespaceRule :: regex_rule where
  "verticalWhitespaceRule =
     \<lparr>rePatterns = [Seq (Chr newline)
                         (Rep True 2 None (Seq (Many BlankNotNewline) (Chr newline)))],
      exceptions = None,
      rule_severity = Warning,
      rule_message = ''Vertical whitespace should not be longer than one line.''\<rparr>"

definition allRegexRules :: "regex_rule list" where
  "allRegexRules =
     [closingBraceRule, colonRule, commaRule, conditionalReturnsOnNewlineRule,
      controlStatementRule, emptyCountRule, forceCastRule, forceTryRule,
      leadingWhitespaceRule, legacyNSGeometryFunctionsRule, openingBraceRule,
      redundantNilCoalescingRule, returnArrowWhiteSpaceRule, trailingNewlineRule,
      trailingSemicolonRule, trailingWhitespaceRule, verticalWhitespaceRule]"

section \<open>Results processing\<close>

subsection \<open>Exceptions and pattern rules\<close>

record exception_range =
  range_start :: nat
  range_end :: nat

text \<open>The ranges matched by a list of patterns, pattern by pattern.\<close>

fun exception_loop :: "string \<Rightarrow> regex list \<Rightarrow> exception_range list option" where
  "exception_loop text [] = Some []"
| "exception_loop text (e # es) =
     do {
       ms \<leftarrow> execAll e text 0;
       exceptionRanges \<leftarrow> exception_loop text es;
       Some (map (\<lambda>mt. \<lparr>range_start = mt_index mt, range_end = mt_end mt\<rparr>) ms
             @ exceptionRanges)
     }"

definition processExceptions :: "string \<Rightarrow> regex list option \<Rightarrow> exception_range list option" where
  "processExceptions text excs =
     (case excs of None \<Rightarrow> Some [] | Some es \<Rightarrow> exception_loop text es)"

fun regexException :: "nat \<Rightarrow> exception_range list \<Rightarrow> bool" where
  "regexException matchIndex [] = False"
| "regexException matchIndex (rng # exceptionRanges) =
     (if range_start rng \<le> matchIndex \<and> range_end rng > matchIndex then True
      else regexException matchIndex exceptionRanges)"

text \<open>The findings of one pattern of a rule: one for every match that no exception
  range covers.\<close>

definition pattern_findings ::
    "string \<Rightarrow> regex_rule \<Rightarrow> exception_range list \<Rightarrow> regmatch list \<Rightarrow> finding list" where
  "pattern_findings text rule exceptionRanges ms =
     map (\<lambda>mt. \<lparr>e_code = matched text mt, e_index = Num (int (mt_index mt)),
                  e_severity = rule_severity rule, e_message = rule_message rule\<rparr>)
       (filter (\<lambda>mt. \<not> regexException (mt_index mt) exceptionRanges) ms)"

fun pattern_loop ::
    "string \<Rightarrow> regex_rule \<Rightarrow> exception_range list \<Rightarrow> regex list \<Rightarrow> finding list option" where
  "pattern_loop text rule exceptionRanges [] = Some []"
| "pattern_loop text rule exceptionRanges (p # ps) =
     do {
       ms \<leftarrow> execAll p text 0;
       foundErrors \<leftarrow> pattern_loop text rule exceptionRanges ps;
       Some (pattern_findings text rule exceptionRanges ms @ foundErrors)
     }"

definition regexRule :: "string \<Rightarrow> regex_rule \<Rightarrow> finding list option" where
  "regexRule text rule =
     do {
       exceptionRanges \<leftarrow> processExceptions text (exceptions rule);
       pattern_loop text rule exceptionRanges (rePatterns rule)
     }"

subsection \<open>Function parameters\<close>

text \<open>\<^verbatim>\<open>/^func\s+\w+\s*\(\s*\)/\<close> and \<^verbatim>\<open>/^func\s+\w+(.*?)\{/\<close>\<close>

definition noParamRegex :: regex where
  "noParamRegex =
     Seqs [Bol, Lit ''func'', Many1 Space, Many1 (Cls is_word), Many Space, Chr CHR ''('',
           Many Space, Chr CHR '')'']"

definition paramRegex :: regex where
  "paramRegex =
     Seqs [Bol, Lit ''func'', Many1 Space, Many1 (Cls is_word), Grp 1 (LazyMany (Cls is_dot)),
           Chr CHR ''{'']"

text \<open>The loop over \<open>functionInfo\<close> from \<open>i\<close> on, with the depth and the count so far;
  it returns \<open>paramCount\<close> and \<open>paramEndIndex\<close>, which stays \<open>-1\<close> when the loop runs off
  the end of the string.\<close>

function param_loop :: "string \<Rightarrow> int \<Rightarrow> int \<Rightarrow> int \<Rightarrow> int \<times> int" where
  "param_loop functionInfo i depth paramCount =
     (if i < int (length functionInfo) then
        let currentChar = js_charAt functionInfo i;
            depth1 = (if currentChar = ''('' then depth + 1 else depth);
            depth2 = (if currentChar = '')'' then depth1 - 1 else depth1);
            paramCount1 = (if depth2 = 1 \<and> currentChar = '','' then paramCount + 1
                           else paramCount)
        in if depth2 = 0 then (paramCount1, i + 1)
           else param_loop functionInfo (i + 1) depth2 paramCount1
      else (paramCount, - 1))"
  by pat_completeness auto
termination
  by (relation "measure (\<lambda>(functionInfo, i, depth, paramCount).
        nat (int (length functionInfo) - i))") auto

declare param_loop.simps [simp del]

text \<open>\<open>getFunctionParameters\<close> updates the function object in place; the model returns
  the updated object. \<open>functionInfo.indexOf\<close> on an \<open>undefined\<close> group throws a
  TypeError: \<open>None\<close>.\<close>

definition getFunctionParameters :: "body \<Rightarrow> body option" where
  "getFunctionParameters functionObj =
     (if test noParamRegex (b_code functionObj) then
        Some (functionObj\<lparr>b_paramCount := Def 0, b_params := Null\<rparr>)
      else
        case exec paramRegex (b_code functionObj) 0 of
          None \<Rightarrow> Some functionObj
        | Some mt \<Rightarrow>
            (case capture (b_code functionObj) mt 1 of
               None \<Rightarrow> None
             | Some functionInfo \<Rightarrow>
                 let paramStartIndex = js_indexOf functionInfo ''('';
                     (paramCount, paramEndIndex) = param_loop functionInfo paramStartIndex 0 1
                 in Some (functionObj
                      \<lparr>b_paramCount := Def paramCount,
                       b_params := Def (js_substring functionInfo (paramStartIndex + 1)
                                          (paramEndIndex - 1))\<rparr>)))"

subsection \<open>Function and type bodies\<close>

text \<open>\<open>new RegExp('(?:^|\\b)' + type + '\\s+(\\w+)', 'g')\<close>, where \<open>type\<close> is one of the
  keywords \<open>func\<close>, \<open>enum\<close>, \<open>struct\<close> and \<open>class\<close> and stands for itself, and
  \<^verbatim>\<open>/[^\}]*?\{|[^\{]*?\}/g\<close>\<close>

definition searchRegex :: "string \<Rightarrow> regex" where
  "searchRegex type = Seqs [Alt Bol WordB, Lit type, Many1 Space, Grp 1 (Many1 (Cls is_word))]"

definition braceRegex :: regex where
  "braceRegex =
     Alt (Seq (LazyMany (NoneOf ''}'')) (Chr CHR ''{''))
         (Seq (LazyMany (NoneOf ''{'')) (Chr CHR ''}''))"

text \<open>The loop over the braces of \<open>codeToCheck\<close>, from \<open>lastIndex\<close> of the brace pattern
  on, with the depth and the body so far; it returns the depth and the body the loop
  ends with.\<close>

function brace_loop :: "string \<Rightarrow> nat \<Rightarrow> int \<Rightarrow> body \<Rightarrow> (int \<times> body) option" where
  "brace_loop codeToCheck lastIndex depth currentBody =
     (case exec braceRegex codeToCheck lastIndex of
        None \<Rightarrow> Some (depth, currentBody)
      | Some mt \<Rightarrow>
          let matchStr = matched codeToCheck mt;
              lastChar = js_charAt matchStr (int (length matchStr) - 1);
              depth1 = (if lastChar = ''{'' then depth + 1
                        else if lastChar = ''}'' then depth - 1 else depth);
              body1 = currentBody\<lparr>b_code := b_code currentBody @ matchStr\<rparr>;
              body2 = (if depth1 > b_maxDepth body1 then body1\<lparr>b_maxDepth := depth1\<rparr>
                       else body1)
          in if depth1 \<le> 0 then Some (depth1, body2)
             else if mt_end mt \<le> lastIndex then None
             else brace_loop codeToCheck (mt_end mt) depth1 body2)"
  by pat_completeness auto
termination
proof (relation "measure (\<lambda>(codeToCheck, lastIndex, depth, currentBody).
          length codeToCheck - lastIndex)")
  show "wf (measure (\<lambda>(codeToCheck, lastIndex, depth, currentBody).
          length codeToCheck - lastIndex))" by simp
next
  fix codeToCheck lastIndex mt and depth depth1 :: int and currentBody body2 :: body
  assume "exec braceRegex codeToCheck lastIndex = Some mt" "\<not> mt_end mt \<le> lastIndex"
  then show "((codeToCheck, mt_end mt, depth1, body2), (codeToCheck, lastIndex, depth, currentBody))
       \<in> measure (\<lambda>(codeToCheck, lastIndex, depth, currentBody). length codeToCheck - lastIndex)"
    using exec_bounds[of braceRegex codeToCheck lastIndex mt] by (simp, linarith)
qed

declare brace_loop.simps [simp del]

fun bodies_loop :: "string \<Rightarrow> body list \<Rightarrow> body list option" where
  "bodies_loop text [] = Some []"
| "bodies_loop text (currentBody # bodyDecs) =
     do {
       (depth, body) \<leftarrow> brace_loop (js_substring_from text (b_index currentBody)) 0 0 currentBody;
       validBodies \<leftarrow> bodies_loop text bodyDecs;
       Some (if depth = 0 \<and> b_code body \<noteq> [] then body # validBodies else validBodies)
     }"

definition bodyDecs :: "string \<Rightarrow> string \<Rightarrow> regmatch list \<Rightarrow> body list" where
  "bodyDecs text type ms =
     map (\<lambda>mt. \<lparr>b_code = [], b_name = str_of_group (capture text mt 1),
                  b_index = int (mt_index mt), b_type = type, b_maxDepth = 0,
                  b_paramCount = Undefined, b_params = Undefined\<rparr>) ms"

definition extractBodies :: "string \<Rightarrow> string \<Rightarrow> body list option" where
  "extractBodies text type =
     do {
       ms \<leftarrow> execAll (searchRegex type) text 0;
       bodies_loop text (bodyDecs text type ms)
     }"

definition extractFunctions :: "string \<Rightarrow> body list option" where
  "extractFunctions text = extractBodies text ''func''"

definition extractTypes :: "string \<Rightarrow> body list option" where
  "extractTypes text =
     do {
       enums \<leftarrow> extractBodies text ''enum'';
       structs \<leftarrow> extractBodies text ''struct'';
       classes \<leftarrow> extractBodies text ''class'';
       Some ((enums @ structs) @ classes)
     }"

subsection \<open>From raw findings to diagnostics\<close>

definition js_add :: "jsnum \<Rightarrow> int \<Rightarrow> jsnum" where
  "js_add v n = (case v of NaN \<Rightarrow> NaN | Num i \<Rightarrow> Num (i + n))"

fun processRawErrors :: "line_index \<Rightarrow> finding list \<Rightarrow> diagnostic list" where
  "processRawErrors ix [] = []"
| "processRawErrors ix (rawError # rawErrors) =
     (let lengthOfErrorCode = int (length (e_code rawError));
          errPos = getLinePos ix (e_index rawError);
          errPosEnd = getLinePos ix (js_add (e_index rawError) lengthOfErrorCode)
      in case (errPos, errPosEnd) of
           (Some from, Some to) \<Rightarrow>
             [\<lparr>d_severity = e_severity rawError, d_message = e_message rawError,
               d_from = from, d_to = to\<rparr>]
         | _ \<Rightarrow> []) @ processRawErrors ix rawErrors"

text \<open>A rule of the function or type family is called as \<open>rule(text, structures, opts,
  cm)\<close>; it reads the line index from the module-level variables, which the model hands
  to it as its first argument.\<close>

type_synonym ('o, 'c) rule =
  "line_index \<Rightarrow> string \<Rightarrow> body list \<Rightarrow> 'o \<Rightarrow> 'c \<Rightarrow> finding list option"

definition applyRuleBuilder ::
    "line_index \<Rightarrow> string \<Rightarrow> body list \<Rightarrow> 'o \<Rightarrow> 'c \<Rightarrow>
     diagnostic list \<Rightarrow> ('o, 'c) rule \<Rightarrow> diagnostic list option" where
  "applyRuleBuilder ix text structures opts cm =
     (\<lambda>foundErrors rule.
        do {
          results \<leftarrow> rule ix text structures opts cm;
          Some (foundErrors @ processRawErrors ix results)
        })"

definition allFunctionRules :: "('o, 'c) rule list" where
  "allFunctionRules =
     [\<lambda>ix text functions opts cm. cyclomaticComplexityRule text functions,
      \<lambda>ix text functions opts cm. Some (functionBodyLengthRule text functions),
      \<lambda>ix text functions opts cm. Some (functionParameterCountRule text functions),
      \<lambda>ix text functions opts cm. Some (lineLengthRule ix text),
      \<lambda>ix text functions opts cm. Some (nestingFuncRule text functions),
      \<lambda>ix text functions opts cm. variableNameRule text functions]"

definition allTypeRules :: "('o, 'c) rule list" where
  "allTypeRules =
     [\<lambda>ix text types opts cm. Some (nestingTypeRule text types),
      \<lambda>ix text types opts cm. Some (typeBodyLengthRule text types),
      \<lambda>ix text types opts cm. typeNameRule text types]"

section \<open>The main linting function\<close>

text \<open>A loop \<open>foundErrors = applyRule(foundErrors, rules[i])\<close> over a list of rules.\<close>

fun apply_loop ::
    "(diagnostic list \<Rightarrow> 'r \<Rightarrow> diagnostic list option) \<Rightarrow> 'r list \<Rightarrow> diagnostic list
     \<Rightarrow> diagnostic list option" where
  "apply_loop applyRule [] foundErrors = Some foundErrors"
| "apply_loop applyRule (rule # rules) foundErrors =
     do {
       foundErrors1 \<leftarrow> applyRule foundErrors rule;
       apply_loop applyRule rules foundErrors1
     }"

fun parameters_loop :: "body list \<Rightarrow> body list option" where
  "parameters_loop [] = Some []"
| "parameters_loop (f # allFunctions) =
     do {
       f1 \<leftarrow> getFunctionParameters f;
       rest \<leftarrow> parameters_loop allFunctions;
       Some (f1 # rest)
     }"

definition applyRegexRule ::
    "line_index \<Rightarrow> string \<Rightarrow> diagnostic list \<Rightarrow> regex_rule \<Rightarrow> diagnostic list option" where
  "applyRegexRule ix text foundErrors currentRule =
     do {
       results \<leftarrow> regexRule text currentRule;
       Some (foundErrors @ processRawErrors ix results)
     }"

text \<open>\<open>swiftLint\<close>: \<open>None\<close> when the call does not return a list, because an exception
  is thrown or a loop does not end.\<close>

definition swiftLint :: "string \<Rightarrow> 'o \<Rightarrow> 'c \<Rightarrow> diagnostic list option" where
  "swiftLint text opts cm =
     do {
       let ix = obtainLineNumbers text;
       extracted \<leftarrow> extractFunctions text;
       allFunctions \<leftarrow> parameters_loop extracted;
       let applyFuncRule = applyRuleBuilder ix text allFunctions opts cm;
       allTypes \<leftarrow> extractTypes text;
       let applyTypeRule = applyRuleBuilder ix text allTypes opts cm;
       foundErrors \<leftarrow> apply_loop (applyRegexRule ix text) allRegexRules [];
       foundErrors \<leftarrow> apply_loop applyFuncRule allFunctionRules foundErrors;
       apply_loop applyTypeRule allTypeRules foundErrors
     }"

section \<open>The linter on the engine of its host\<close>

text \<open>
  The matcher of the first sections is the meaning of a pattern. The linter does not run
  it: it calls \<open>exec\<close> and \<open>test\<close> of its host, and the engine of a host can give up
  on a match. It backtracks on a stack of bounded size and raises a RangeError when the
  stack is full; \<open>swiftLint\<close> has no handler, so the error leaves it. The functions of the
  linter that reach a pattern are written here once more, over the engine they call: each
  is the function of the same name above with the engine in place of the matcher, and
  \<open>None\<close> also when the engine raises.
\<close>

text \<open>An engine: \<open>exec\<close> of the host for a pattern, a text and a \<open>lastIndex\<close>. It
  returns the match or \<open>null\<close>, or raises: \<open>None\<close>. The engine that always completes
  returns what the matcher finds.\<close>

type_synonym engine = "regex \<Rightarrow> string \<Rightarrow> nat \<Rightarrow> regmatch option option"


text \<open>\<open>test\<close>, and the loop over the matches of a pattern; \<open>None\<close> when the engine
  raises or the loop does not end.\<close>

definition test_on :: "engine \<Rightarrow> regex \<Rightarrow> string \<Rightarrow> bool option" where
  "test_on E r s = map_option (\<lambda>m. m \<noteq> None) (E r s 0)"

partial_function (option) execAll_on ::
    "engine \<Rightarrow> regex \<Rightarrow> string \<Rightarrow> nat \<Rightarrow> regmatch list option" where
  "execAll_on E r s lastIndex =
     do {
       m \<leftarrow> E r s lastIndex;
       case m of
         None \<Rightarrow> Some []
       | Some mt \<Rightarrow>
           if mt_end mt \<le> lastIndex then None
           else do { ms \<leftarrow> execAll_on E r s (mt_end mt); Some (mt # ms) }
     }"

declare execAll_on.simps [code]

text \<open>The function-based rules.\<close>

definition currentComplexity_on :: "engine \<Rightarrow> string \<Rightarrow> int option" where
  "currentComplexity_on E funcBody =
     map_option (\<lambda>ms. complexity_of_counts (keywordCount funcBody ms))
       (execAll_on E keyRegex funcBody 0)"

fun cyclomaticComplexityRule_on :: "engine \<Rightarrow> string \<Rightarrow> body list \<Rightarrow> finding list option" where
  "cyclomaticComplexityRule_on E text [] = Some []"
| "cyclomaticComplexityRule_on E text (f # functions) =
     do {
       c \<leftarrow> currentComplexity_on E (b_code f);
       foundErrors \<leftarrow> cyclomaticComplexityRule_on E text functions;
       Some (if c > 10 then
               \<lparr>e_code = b_code f, e_index = Num (b_index f),
                e_severity = (if c > 20 then Error else Warning),
                e_message = complexity_message (b_name f) c\<rparr> # foundErrors
             else foundErrors)
     }"

definition getVariablesFromTuples_on ::
    "engine \<Rightarrow> string jsopt \<Rightarrow> int \<Rightarrow> bool \<Rightarrow> variable list option" where
  "getVariablesFromTuples_on E tuple tupleIndex staticImmutable =
     map_option
       (map (\<lambda>mt. \<lparr>v_name = matched (str_of tuple) mt,
                    v_staticImmutable = staticImmutable,
                    v_index = int (mt_index mt) + tupleIndex\<rparr>))
       (execAll_on E varRegex (str_of tuple) 0)"

definition testVariableName_on :: "engine \<Rightarrow> variable \<Rightarrow> finding option option" where
  "testVariableName_on E v =
     (let errorObject = \<lparr>e_code = v_name v, e_index = Num (v_index v),
                         e_severity = Warning, e_message = []\<rparr>
      in if length (v_name v) < 3 then
           Some (Some (errorObject\<lparr>e_severity := (if length (v_name v) < 2 then Error
                                                    else Warning),
                                   e_message := tooShortMessage\<rparr>))
         else if length (v_name v) > 40 then
           Some (Some (errorObject\<lparr>e_severity := (if length (v_name v) > 60 then Error
                                                    else Warning),
                                   e_message := tooLongMessage\<rparr>))
         else if \<not> v_staticImmutable v then
           do {
             shaped \<leftarrow> test_on E immutableTest (v_name v);
             Some (if \<not> shaped then Some (errorObject\<lparr>e_message := mutableShapeMessage\<rparr>)
                   else None)
           }
         else
           do {
             shaped \<leftarrow> test_on E mutableTest (v_name v);
             Some (if \<not> shaped then Some (errorObject\<lparr>e_message := immutableShapeMessage\<rparr>)
                   else None)
           })"

text \<open>The loop of \<open>variableNameRule\<close> over \<open>allVariables\<close>, which keeps the findings
  that are not \<open>null\<close>.\<close>

fun names_loop_on :: "engine \<Rightarrow> variable list \<Rightarrow> finding list option" where
  "names_loop_on E [] = Some []"
| "names_loop_on E (v # allVariables) =
     do {
       error \<leftarrow> testVariableName_on E v;
       foundErrors \<leftarrow> names_loop_on E allVariables;
       Some (case error of None \<Rightarrow> foundErrors | Some e \<Rightarrow> e # foundErrors)
     }"

definition declared_variables_on ::
    "engine \<Rightarrow> string \<Rightarrow> regmatch \<Rightarrow> variable list option" where
  "declared_variables_on E text mt =
     (let staticImmutable = (truthy (capture text mt 1) \<and> capture text mt 2 = Some ''let'');
          matchText = (if truthy (capture text mt 4) then capture text mt 4
                       else capture text mt 3);
          varIndex = js_indexOf (js_substring_from text (int (mt_index mt)))
                       (str_of_group matchText) + int (mt_index mt)
      in case matchText of
           None \<Rightarrow> None
         | Some matchText0 \<Rightarrow>
             let stripped = (js_charAt matchText0 0 = ''_'');
                 matchText1 = (if stripped then js_substring_from matchText0 1 else matchText0);
                 varIndex1 = (if stripped then varIndex + 1 else varIndex)
             in if truthy (capture text mt 4)
                then getVariablesFromTuples_on E (Def matchText1) varIndex1 staticImmutable
                else Some [\<lparr>v_name = matchText1, v_staticImmutable = staticImmutable,
                             v_index = varIndex1\<rparr>])"

fun declared_loop_on :: "engine \<Rightarrow> string \<Rightarrow> regmatch list \<Rightarrow> variable list option" where
  "declared_loop_on E text [] = Some []"
| "declared_loop_on E text (mt # ms) =
     do {
       vs \<leftarrow> declared_variables_on E text mt;
       allVariables \<leftarrow> declared_loop_on E text ms;
       Some (vs @ allVariables)
     }"

fun parameter_variables_on :: "engine \<Rightarrow> body list \<Rightarrow> variable list option" where
  "parameter_variables_on E [] = Some []"
| "parameter_variables_on E (currentFunc # functions) =
     do {
       vs \<leftarrow> getVariablesFromTuples_on E (b_params currentFunc)
               (b_index currentFunc + js_indexOf (b_code currentFunc) ''('' + 1) False;
       allVariables \<leftarrow> parameter_variables_on E functions;
       Some (vs @ allVariables)
     }"

definition variableNameRule_on :: "engine \<Rightarrow> string \<Rightarrow> body list \<Rightarrow> finding list option" where
  "variableNameRule_on E text functions =
     do {
       ms \<leftarrow> execAll_on E variableRegex text 0;
       declared \<leftarrow> declared_loop_on E text ms;
       params \<leftarrow> parameter_variables_on E functions;
       names_loop_on E (declared @ params)
     }"

text \<open>The type-based rules.\<close>

fun typeName_loop_on ::
    "engine \<Rightarrow> (string \<times> int \<times> string) list \<Rightarrow> finding list option" where
  "typeName_loop_on E [] = Some []"
| "typeName_loop_on E ((code, index, typeName) # allTypes) =
     do {
       shaped \<leftarrow> test_on E typeNameTest typeName;
       foundErrors \<leftarrow> typeName_loop_on E allTypes;
       Some ((if \<not> shaped then
                [\<lparr>e_code = code, e_index = Num index, e_severity = Warning,
                  e_message = typeNameMessage\<rparr>]
              else []) @ foundErrors)
     }"

definition typeNameRule_on :: "engine \<Rightarrow> string \<Rightarrow> body list \<Rightarrow> finding list option" where
  "typeNameRule_on E text types =
     do {
       ms \<leftarrow> execAll_on E typealiasRegex text 0;
       let typealiases = map (\<lambda>mt. (matched text mt, int (mt_index mt),
                                      str_of_group (capture text mt 1))) ms;
       typeName_loop_on E (map (\<lambda>t. (b_code t, b_index t, b_name t)) types @ typealiases)
     }"

text \<open>The pattern rules.\<close>

fun exception_loop_on ::
    "engine \<Rightarrow> string \<Rightarrow> regex list \<Rightarrow> exception_range list option" where
  "exception_loop_on E text [] = Some []"
| "exception_loop_on E text (e # es) =
     do {
       ms \<leftarrow> execAll_on E e text 0;
       exceptionRanges \<leftarrow> exception_loop_on E text es;
       Some (map (\<lambda>mt. \<lparr>range_start = mt_index mt, range_end = mt_end mt\<rparr>) ms
             @ exceptionRanges)
     }"

definition processExceptions_on ::
    "engine \<Rightarrow> string \<Rightarrow> regex list option \<Rightarrow> exception_range list option" where
  "processExceptions_on E text excs =
     (case excs of None \<Rightarrow> Some [] | Some es \<Rightarrow> exception_loop_on E text es)"

fun pattern_loop_on ::
    "engine \<Rightarrow> string \<Rightarrow> regex_rule \<Rightarrow> exception_range list \<Rightarrow> regex list
     \<Rightarrow> finding list option" where
  "pattern_loop_on E text rule exceptionRanges [] = Some []"
| "pattern_loop_on E text rule exceptionRanges (p # ps) =
     do {
       ms \<leftarrow> execAll_on E p text 0;
       foundErrors \<leftarrow> pattern_loop_on E text rule exceptionRanges ps;
       Some (pattern_findings text rule exceptionRanges ms @ foundErrors)
     }"

definition regexRule_on :: "engine \<Rightarrow> string \<Rightarrow> regex_rule \<Rightarrow> finding list option" where
  "regexRule_on E text rule =
     do {
       exceptionRanges \<leftarrow> processExceptions_on E text (exceptions rule);
       pattern_loop_on E text rule exceptionRanges (rePatterns rule)
     }"

text \<open>Parameters and bodies.\<close>

definition getFunctionParameters_on :: "engine \<Rightarrow> body \<Rightarrow> body option" where
  "getFunctionParameters_on E functionObj =
     do {
       noParams \<leftarrow> test_on E noParamRegex (b_code functionObj);
       if noParams then
         Some (functionObj\<lparr>b_paramCount := Def 0, b_params := Null\<rparr>)
       else
         do {
           m \<leftarrow> E paramRegex (b_code functionObj) 0;
           case m of
             None \<Rightarrow> Some functionObj
           | Some mt \<Rightarrow>
               (case capture (b_code functionObj) mt 1 of
                  None \<Rightarrow> None
                | Some functionInfo \<Rightarrow>
                    let paramStartIndex = js_indexOf functionInfo ''('';
                        (paramCount, paramEndIndex) =
                          param_loop functionInfo paramStartIndex 0 1
                    in Some (functionObj
                         \<lparr>b_paramCount := Def paramCount,
                          b_params := Def (js_substring functionInfo (paramStartIndex + 1)
                                             (paramEndIndex - 1))\<rparr>))
         }
     }"

fun parameters_loop_on :: "engine \<Rightarrow> body list \<Rightarrow> body list option" where
  "parameters_loop_on E [] = Some []"
| "parameters_loop_on E (f # allFunctions) =
     do {
       f1 \<leftarrow> getFunctionParameters_on E f;
       rest \<leftarrow> parameters_loop_on E allFunctions;
       Some (f1 # rest)
     }"

partial_function (option) brace_loop_on ::
    "engine \<Rightarrow> string \<Rightarrow> nat \<Rightarrow> int \<Rightarrow> body \<Rightarrow> (int \<times> body) option" where
  "brace_loop_on E codeToCheck lastIndex depth currentBody =
     do {
       m \<leftarrow> E braceRegex codeToCheck lastIndex;
       case m of
         None \<Rightarrow> Some (depth, currentBody)
       | Some mt \<Rightarrow>
           let matchStr = matched codeToCheck mt;
               lastChar = js_charAt matchStr (int (length matchStr) - 1);
               depth1 = (if lastChar = ''{'' then depth + 1
                         else if lastChar = ''}'' then depth - 1 else depth);
               body1 = currentBody\<lparr>b_code := b_code currentBody @ matchStr\<rparr>;
               body2 = (if depth1 > b_maxDepth body1 then body1\<lparr>b_maxDepth := depth1\<rparr>
                        else body1)
           in if depth1 \<le> 0 then Some (depth1, body2)
              else if mt_end mt \<le> lastIndex then None
              else brace_loop_on E codeToCheck (mt_end mt) depth1 body2
     }"

declare brace_loop_on.simps [code]

fun bodies_loop_on :: "engine \<Rightarrow> string \<Rightarrow> body list \<Rightarrow> body list option" where
  "bodies_loop_on E text [] = Some []"
| "bodies_loop_on E text (currentBody # decs) =
     do {
       (depth, body) \<leftarrow>
         brace_loop_on E (js_substring_from text (b_index currentBody)) 0 0 currentBody;
       validBodies \<leftarrow> bodies_loop_on E text decs;
       Some (if depth = 0 \<and> b_code body \<noteq> [] then body # validBodies else validBodies)
     }"

definition extractBodies_on :: "engine \<Rightarrow> string \<Rightarrow> string \<Rightarrow> body list option" where
  "extractBodies_on E text type =
     do {
       ms \<leftarrow> execAll_on E (searchRegex type) text 0;
       bodies_loop_on E text (bodyDecs text type ms)
     }"

definition extractFunctions_on :: "engine \<Rightarrow> string \<Rightarrow> body list option" where
  "extractFunctions_on E text = extractBodies_on E text ''func''"

definition extractTypes_on :: "engine \<Rightarrow> string \<Rightarrow> body list option" where
  "extractTypes_on E text =
     do {
       enums \<leftarrow> extractBodies_on E text ''enum'';
       structs \<leftarrow> extractBodies_on E text ''struct'';
       classes \<leftarrow> extractBodies_on E text ''class'';
       Some ((enums @ structs) @ classes)
     }"

text \<open>The rule families and the main function.\<close>

definition allFunctionRules_on :: "engine \<Rightarrow> ('o, 'c) rule list" where
  "allFunctionRules_on E =
     [\<lambda>ix text functions opts cm. cyclomaticComplexityRule_on E text functions,
      \<lambda>ix text functions opts cm. Some (functionBodyLengthRule text functions),
      \<lambda>ix text functions opts cm. Some (functionParameterCountRule text functions),
      \<lambda>ix text functions opts cm. Some (lineLengthRule ix text),
      \<lambda>ix text functions opts cm. Some (nestingFuncRule text functions),
      \<lambda>ix text functions opts cm. variableNameRule_on E text functions]"

definition allTypeRules_on :: "engine \<Rightarrow> ('o, 'c) rule list" where
  "allTypeRules_on E =
     [\<lambda>ix text types opts cm. Some (nestingTypeRule text types),
      \<lambda>ix text types opts cm. Some (typeBodyLengthRule text types),
      \<lambda>ix text types opts cm. typeNameRule_on E text types]"

definition applyRegexRule_on ::
    "engine \<Rightarrow> line_index \<Rightarrow> string \<Rightarrow> diagnostic list \<Rightarrow> regex_rule
     \<Rightarrow> diagnostic list option" where
  "applyRegexRule_on E ix text foundErrors currentRule =
     do {
       results \<leftarrow> regexRule_on E text currentRule;
       Some (foundErrors @ processRawErrors ix results)
     }"

definition swiftLint_on :: "engine \<Rightarrow> string \<Rightarrow> 'o \<Rightarrow> 'c \<Rightarrow> diagnostic list option" where
  "swiftLint_on E text opts cm =
     do {
       let ix = obtainLineNumbers text;
       extracted \<leftarrow> extractFunctions_on E text;
       allFunctions \<leftarrow> parameters_loop_on E extracted;
       let applyFuncRule = applyRuleBuilder ix text allFunctions opts cm;
       allTypes \<leftarrow> extractTypes_on E text;
       let applyTypeRule = applyRuleBuilder ix text allTypes opts cm;
       foundErrors \<leftarrow> apply_loop (applyRegexRule_on E ix text) allRegexRules [];
       foundErrors \<leftarrow> apply_loop applyFuncRule (allFunctionRules_on E) foundErrors;
       apply_loop applyTypeRule (allTypeRules_on E) foundErrors
     }"

section \<open>An engine with a bounded stack\<close>

text \<open>
  A backtracking engine keeps on a stack the alternatives it may have to come back to:
  the second branch of a \<open>|\<close>, and, for every iteration of a quantifier that is not
  required, the other way to go on (past the loop for a greedy quantifier, into it for a
  lazy one). An entry stays on the stack while the rest of the pattern is tried and comes
  off when the engine falls back on it. \<open>matcher_b cap\<close> is the matcher above with the
  number of entries on the stack as one more argument of every continuation. A push
  on a stack that holds \<open>cap\<close> entries is the overflow that the host reports as a
  RangeError.
\<close>

text \<open>What a matcher comes to: the stack overflows, the match fails, or it ends in a
  state.\<close>

datatype outcome = Overflow | Fail | Matched mstate

type_synonym bcont = "nat \<Rightarrow> mstate \<Rightarrow> outcome"

primrec rep_b ::
    "nat \<Rightarrow> nat \<Rightarrow> (bcont \<Rightarrow> bcont) \<Rightarrow> bool \<Rightarrow> nat \<Rightarrow> nat option \<Rightarrow> bcont \<Rightarrow> bcont" where
  "rep_b cap 0 f greedy mn mx k d st = k d st"
| "rep_b cap (Suc n) f greedy mn mx k d st =
     (if mx = Some 0 then k d st
      else
        let again = (\<lambda>d' st'. if mn = 0 \<and> m_at st' = m_at st then Fail
                        else rep_b cap n f greedy (mn - 1) (map_option (\<lambda>x. x - 1) mx) k d' st')
        in if 0 < mn then f again d st
           else if cap \<le> d then Overflow
           else if greedy then (case f again (Suc d) st of Fail \<Rightarrow> k d st | res \<Rightarrow> res)
           else (case k (Suc d) st of Fail \<Rightarrow> f again d st | res \<Rightarrow> res))"

primrec matcher_b :: "nat \<Rightarrow> regex \<Rightarrow> bcont \<Rightarrow> bcont" where
  "matcher_b cap Eps k d st = k d st"
| "matcher_b cap (Cls P) k d st =
     (case m_rest st of
        [] \<Rightarrow> Fail
      | c # cs \<Rightarrow>
          if P c then k d (st\<lparr>m_at := m_at st + 1, m_prev := Some c, m_rest := cs\<rparr>)
          else Fail)"
| "matcher_b cap (Seq a b) k d st = matcher_b cap a (matcher_b cap b k) d st"
| "matcher_b cap (Alt a b) k d st =
     (if cap \<le> d then Overflow
      else case matcher_b cap a k (Suc d) st of
             Fail \<Rightarrow> matcher_b cap b k d st
           | res \<Rightarrow> res)"
| "matcher_b cap (Rep greedy mn mx a) k d st =
     rep_b cap (mn + length (m_rest st)) (matcher_b cap a) greedy mn mx k d st"
| "matcher_b cap (Grp g a) k d st =
     matcher_b cap a (\<lambda>d' st'. k d' (st'\<lparr>m_caps := (g, m_at st, m_at st') # m_caps st'\<rparr>)) d st"
| "matcher_b cap Bol k d st = (if m_at st = 0 then k d st else Fail)"
| "matcher_b cap Eol k d st = (if m_rest st = [] then k d st else Fail)"
| "matcher_b cap WordB k d st =
     (if is_word_opt (m_prev st) \<noteq> is_word_opt (next_char st) then k d st else Fail)"

fun exec_scan_b ::
    "nat \<Rightarrow> regex \<Rightarrow> nat \<Rightarrow> char option \<Rightarrow> string \<Rightarrow> regmatch option option" where
  "exec_scan_b cap r i prev [] =
     (case matcher_b cap r (\<lambda>d. Matched) 0
             \<lparr>m_at = i, m_prev = prev, m_rest = [], m_caps = []\<rparr> of
        Overflow \<Rightarrow> None
      | Fail \<Rightarrow> Some None
      | Matched st \<Rightarrow> Some (Some \<lparr>mt_index = i, mt_end = m_at st, mt_caps = m_caps st\<rparr>))"
| "exec_scan_b cap r i prev (c # cs) =
     (case matcher_b cap r (\<lambda>d. Matched) 0
             \<lparr>m_at = i, m_prev = prev, m_rest = c # cs, m_caps = []\<rparr> of
        Overflow \<Rightarrow> None
      | Fail \<Rightarrow> exec_scan_b cap r (i + 1) (Some c) cs
      | Matched st \<Rightarrow> Some (Some \<lparr>mt_index = i, mt_end = m_at st, mt_caps = m_caps st\<rparr>))"

definition exec_b :: "nat \<Rightarrow> regex \<Rightarrow> string \<Rightarrow> nat \<Rightarrow> regmatch option option" where
  "exec_b cap r s lastIndex =
     (if length s < lastIndex then Some None
      else exec_scan_b cap r lastIndex
             (if lastIndex = 0 then None else Some (s ! (lastIndex - 1)))
             (drop lastIndex s))"

section \<open>Properties of the position index\<close>

lemma split_chr_nonempty: "split_chr sep s \<noteq> []"
  by (induction s) (auto split: list.splits)

lemma length_lineNumbers_loop: "length (lineNumbers_loop c ls) = length ls"
  by (induction ls arbitrary: c) auto

lemma lineNumbers_loop_0: "ls \<noteq> [] \<Longrightarrow> lineNumbers_loop c ls ! 0 = c"
  by (cases ls) auto

text \<open>From an iteration whose earlier line starts all lie before the index, the loop of
  \<open>getLinePos\<close> finds a line and a column that add up to the index.\<close>

lemma getLinePos_loop_resolves:
  assumes "i < length (LINE_NUMBERS ix)"
    and "LINE_NUMBERS ix ! i \<le> index \<or> (0 < i \<and> LINE_NUMBERS ix ! (i - 1) < index)"
    and "0 < i \<longrightarrow> LINE_NUMBERS ix ! (i - 1) < index"
    and "index \<le> TEXT_LENGTH ix"
  shows "\<exists>l c. getLinePos_loop ix index i = Some \<lparr>line = int l, ch = Num c\<rparr>
           \<and> l < length (LINE_NUMBERS ix) \<and> 0 \<le> c \<and> LINE_NUMBERS ix ! l + c = index"
  using assms
proof (induction ix index i rule: getLinePos_loop.induct)
  case (1 ix index i)
  show ?case
  proof (cases "index < LINE_NUMBERS ix ! i")
    case True
    with 1 have i: "0 < i" "LINE_NUMBERS ix ! (i - 1) < index" by auto
    have "getLinePos_loop ix index i =
        Some \<lparr>line = int (i - 1), ch = Num (index - LINE_NUMBERS ix ! (i - 1))\<rparr>"
      using True "1.prems" i by (subst getLinePos_loop.simps) (simp add: of_nat_diff)
    then show ?thesis
      using i "1.prems"(1)
      by (intro exI[of _ "i - 1"] exI[of _ "index - LINE_NUMBERS ix ! (i - 1)"]) auto
  next
    case False
    show ?thesis
    proof (cases "index = LINE_NUMBERS ix ! i \<or> i = length (LINE_NUMBERS ix) - 1")
      case True
      then have "getLinePos_loop ix index i =
          Some \<lparr>line = int i, ch = Num (index - LINE_NUMBERS ix ! i)\<rparr>"
        using False "1.prems" by (subst getLinePos_loop.simps) auto
      then show ?thesis
        using False "1.prems"(1)
        by (intro exI[of _ i] exI[of _ "index - LINE_NUMBERS ix ! i"]) auto
    next
      case F2: False
      then have eq: "getLinePos_loop ix index i = getLinePos_loop ix index (i + 1)"
        using False "1.prems" by (subst getLinePos_loop.simps) auto
      have "\<exists>l c. getLinePos_loop ix index (i + 1) = Some \<lparr>line = int l, ch = Num c\<rparr>
           \<and> l < length (LINE_NUMBERS ix) \<and> 0 \<le> c \<and> LINE_NUMBERS ix ! l + c = index"
        using False F2 "1.prems" by (intro "1.IH") auto
      then show ?thesis using eq by simp
    qed
  qed
qed

lemma getLinePos_resolves:
  assumes "0 \<le> off" and "off \<le> int (length text)"
  shows "\<exists>l c. getLinePos (obtainLineNumbers text) (Num off) = Some \<lparr>line = int l, ch = Num c\<rparr>
           \<and> l < length (LINE_NUMBERS (obtainLineNumbers text)) \<and> 0 \<le> c
           \<and> LINE_NUMBERS (obtainLineNumbers text) ! l + c = off"
proof -
  let ?ix = "obtainLineNumbers text"
  have ne: "split_chr newline text \<noteq> []" by (rule split_chr_nonempty)
  have len: "0 < length (LINE_NUMBERS ?ix)"
    using ne by (simp add: obtainLineNumbers_def length_lineNumbers_loop)
  have z: "LINE_NUMBERS ?ix ! 0 = 0"
    using ne by (simp add: obtainLineNumbers_def lineNumbers_loop_0)
  have "\<exists>l c. getLinePos_loop ?ix off 0 = Some \<lparr>line = int l, ch = Num c\<rparr>
           \<and> l < length (LINE_NUMBERS ?ix) \<and> 0 \<le> c \<and> LINE_NUMBERS ?ix ! l + c = off"
    using len z assms by (intro getLinePos_loop_resolves) (auto simp: obtainLineNumbers_def)
  then show ?thesis by (simp add: getLinePos_def)
qed

text \<open>
  C6. For every text and every offset from \<open>0\<close> to the length of the text, the position
  index resolves the offset (the result is not \<open>null\<close>) to a line and a column, and the
  start offset of that line plus the column is the offset again.
\<close>

theorem offset_roundtrip:
  assumes "0 \<le> off" and "off \<le> int (length text)"
  shows "\<exists>p. getLinePos (obtainLineNumbers text) (Num off) = Some p
           \<and> offsetOf (obtainLineNumbers text) p = Num off"
proof -
  from getLinePos_resolves[OF assms] obtain l c where
    "getLinePos (obtainLineNumbers text) (Num off) = Some \<lparr>line = int l, ch = Num c\<rparr>"
    "l < length (LINE_NUMBERS (obtainLineNumbers text))"
    "LINE_NUMBERS (obtainLineNumbers text) ! l + c = off" by blast
  then show ?thesis by (auto simp: offsetOf_def)
qed

theorem offset_roundtrip_witness:
  "(0::int) \<le> 4 \<and> (4::int) \<le> int (length (''ab'' @ [newline] @ ''cde''))
   \<and> (\<exists>p. getLinePos (obtainLineNumbers (''ab'' @ [newline] @ ''cde'')) (Num 4) = Some p
          \<and> offsetOf (obtainLineNumbers (''ab'' @ [newline] @ ''cde'')) p = Num 4)"
  using offset_roundtrip[of 4 "''ab'' @ [newline] @ ''cde''"] by simp

section \<open>Properties of the naming check\<close>

lemma length_messages_differ:
  "tooShortMessage \<noteq> mutableShapeMessage" "tooShortMessage \<noteq> immutableShapeMessage"
  "tooLongMessage \<noteq> mutableShapeMessage" "tooLongMessage \<noteq> immutableShapeMessage"
  by (simp_all add: tooShortMessage_def tooLongMessage_def mutableShapeMessage_def
      immutableShapeMessage_def)

subsection \<open>The shape of a name\<close>

text \<open>The two shapes in words. A name is taken without one leading underscore, if it has
  one. The shape of an ordinary binding: a lowercase letter followed by letters and digits
  only, or capitals and digits only. The shape of a constant-eligible binding (a \<open>static
  let\<close>): a letter followed by letters and digits only.\<close>

definition without_underscore :: "string \<Rightarrow> string" where
  "without_underscore name =
     (case name of [] \<Rightarrow> [] | c # cs \<Rightarrow> if c = CHR ''_'' then cs else name)"

definition ordinary_shape :: "string \<Rightarrow> bool" where
  "ordinary_shape name =
     (case without_underscore name of
        [] \<Rightarrow> False
      | c # cs \<Rightarrow> (is_lower c \<and> list_all is_alnum cs)
                 \<or> list_all (\<lambda>x. is_upper x \<or> is_digit x) (c # cs))"

definition constant_shape :: "string \<Rightarrow> bool" where
  "constant_shape name =
     (case without_underscore name of
        [] \<Rightarrow> False
      | c # cs \<Rightarrow> (is_upper c \<or> is_lower c) \<and> list_all is_alnum cs)"

text \<open>The two patterns of \<open>testVariableName\<close> match exactly the names of these
  shapes.\<close>

lemma rep_none_left: "rep n f greedy mn (Some 0) k st = k st"
  by (cases n) simp_all

lemma many_class_to_end:
  "length (m_rest st) \<le> n \<Longrightarrow>
     (rep n (matcher_of (Cls P)) True 0 None (matcher_of Eol Some) st = None)
       = (\<not> list_all P (m_rest st))"
proof (induction n arbitrary: st)
  case 0
  then show ?case by simp
next
  case (Suc n)
  show ?case
  proof (cases "m_rest st")
    case Nil
    then show ?thesis by simp
  next
    case (Cons c cs)
    define st1 where "st1 = st\<lparr>m_at := m_at st + 1, m_prev := Some c, m_rest := cs\<rparr>"
    have r1: "m_rest st1 = cs" by (simp add: st1_def)
    have "length (m_rest st1) \<le> n" using Suc.prems Cons r1 by simp
    note ih = Suc.IH[OF this, unfolded r1]
    have step: "rep (Suc n) (matcher_of (Cls P)) True 0 None (matcher_of Eol Some) st
        = (if P c then rep n (matcher_of (Cls P)) True 0 None (matcher_of Eol Some) st1
           else None)"
      using Cons unfolding st1_def by (simp split: option.splits)
    show ?thesis
    proof (cases "P c")
      case True
      show ?thesis unfolding step if_P[OF True] ih using Cons True by simp
    next
      case False
      show ?thesis unfolding step if_not_P[OF False] using Cons False by simp
    qed
  qed
qed

lemma many_to_end:
  "(matcher_of (Many (Cls P)) (matcher_of Eol Some) st = None) = (\<not> list_all P (m_rest st))"
  unfolding Many_def matcher_of.simps(5) by (rule many_class_to_end) simp

lemma many1_class_to_end:
  assumes "length (m_rest st) \<le> n"
  shows "(rep (Suc n) (matcher_of (Cls P)) True 1 None (matcher_of Eol Some) st = None)
       = (\<not> (m_rest st \<noteq> [] \<and> list_all P (m_rest st)))"
proof (cases "m_rest st")
  case Nil
  then show ?thesis by simp
next
  case (Cons c cs)
  define st1 where "st1 = st\<lparr>m_at := m_at st + 1, m_prev := Some c, m_rest := cs\<rparr>"
  have r1: "m_rest st1 = cs" by (simp add: st1_def)
  have "length (m_rest st1) \<le> n" using assms Cons r1 by simp
  note m = many_class_to_end[OF this, unfolded r1]
  have step: "rep (Suc n) (matcher_of (Cls P)) True 1 None (matcher_of Eol Some) st
      = (if P c then rep n (matcher_of (Cls P)) True 0 None (matcher_of Eol Some) st1
         else None)"
    using Cons unfolding st1_def by simp
  show ?thesis
  proof (cases "P c")
    case True
    show ?thesis unfolding step if_P[OF True] m using Cons True by simp
  next
    case False
    show ?thesis unfolding step if_not_P[OF False] using Cons False by simp
  qed
qed

lemma many1_to_end:
  "(matcher_of (Many1 (Cls P)) (matcher_of Eol Some) st = None)
     = (\<not> (m_rest st \<noteq> [] \<and> list_all P (m_rest st)))"
  unfolding Many1_def matcher_of.simps(5)
  by (simp only: plus_1_eq_Suc) (rule many1_class_to_end, simp)

lemma maybe_chr:
  "matcher_of (Maybe (Chr c)) k st =
     (case m_rest st of
        [] \<Rightarrow> k st
      | x # xs \<Rightarrow>
          if x = c then
            (case k (st\<lparr>m_at := m_at st + 1, m_prev := Some x, m_rest := xs\<rparr>) of
               Some r \<Rightarrow> Some r
             | None \<Rightarrow> k st)
          else k st)"
  by (cases "m_rest st") (simp_all add: Maybe_def Chr_def rep_none_left)

lemma anchored_scan:
  "0 < i \<Longrightarrow> exec_scan (Seq Bol r) i prev s = None"
  by (induction s arbitrary: i prev) simp_all

lemma anchored_test:
  "test (Seq Bol r) s =
     (matcher_of r Some \<lparr>m_at = 0, m_prev = None, m_rest = s, m_caps = []\<rparr> \<noteq> None)"
  by (cases s) (auto simp: test_def exec_def anchored_scan split: option.splits)

lemma underscore_class:
  "\<not> is_lower CHR ''_''" "\<not> is_upper CHR ''_''" "\<not> is_digit CHR ''_''"
  "\<not> is_alnum CHR ''_''"
  by (simp_all add: is_alnum_def is_lower_def is_upper_def is_digit_def between_def
      char_code_def)

text \<open>The patterns after their optional underscore, and what they match.\<close>

definition ordinary_tail :: regex where
  "ordinary_tail =
     Seq (Alt (Seq (Cls is_lower) (Many (Cls is_alnum)))
              (Many1 (Cls (\<lambda>c. is_upper c \<or> is_digit c)))) Eol"

definition ordinary_rest :: "string \<Rightarrow> bool" where
  "ordinary_rest s =
     (case s of
        [] \<Rightarrow> False
      | c # cs \<Rightarrow> (is_lower c \<and> list_all is_alnum cs)
                 \<or> list_all (\<lambda>x. is_upper x \<or> is_digit x) (c # cs))"

lemma ordinary_tail_matches:
  "(matcher_of ordinary_tail Some st = None) = (\<not> ordinary_rest (m_rest st))"
proof -
  let ?K = "matcher_of Eol Some"
  have a: "(matcher_of (Seq (Cls is_lower) (Many (Cls is_alnum))) ?K st = None)
      = (\<not> (case m_rest st of
                [] \<Rightarrow> False
              | c # cs \<Rightarrow> is_lower c \<and> list_all is_alnum cs))"
  proof (cases "m_rest st")
    case Nil
    then show ?thesis by simp
  next
    case (Cons c cs)
    have "matcher_of (Seq (Cls is_lower) (Many (Cls is_alnum))) ?K st
        = (if is_lower c
           then matcher_of (Many (Cls is_alnum)) ?K
                  (st\<lparr>m_at := m_at st + 1, m_prev := Some c, m_rest := cs\<rparr>)
           else None)"
      unfolding matcher_of.simps(3) matcher_of.simps(2) using Cons by simp
    then show ?thesis using Cons by (simp add: many_to_end)
  qed
  have b: "(matcher_of (Many1 (Cls (\<lambda>c. is_upper c \<or> is_digit c))) ?K st = None)
      = (\<not> (case m_rest st of [] \<Rightarrow> False
         | c # cs \<Rightarrow> list_all (\<lambda>x. is_upper x \<or> is_digit x) (c # cs)))"
    unfolding many1_to_end by (cases "m_rest st") simp_all
  have "(matcher_of ordinary_tail Some st = None)
      = (matcher_of (Seq (Cls is_lower) (Many (Cls is_alnum))) ?K st = None
         \<and> matcher_of (Many1 (Cls (\<lambda>c. is_upper c \<or> is_digit c))) ?K st = None)"
    unfolding ordinary_tail_def matcher_of.simps(3) matcher_of.simps(4)
    by (simp split: option.splits)
  then show ?thesis unfolding a b ordinary_rest_def by (cases "m_rest st") auto
qed

lemma optional_underscore:
  assumes r: "\<And>st. (matcher_of r Some st = None) = (\<not> Q (m_rest st))"
    and u: "\<And>cs. \<not> Q (CHR ''_'' # cs)"
  shows "test (Seq Bol (Seq (Maybe (Chr CHR ''_'')) r)) name = Q (without_underscore name)"
proof -
  let ?st = "\<lparr>m_at = 0, m_prev = None, m_rest = name, m_caps = []\<rparr>"
  have t: "test (Seq Bol (Seq (Maybe (Chr CHR ''_'')) r)) name
      = (matcher_of (Maybe (Chr CHR ''_'')) (matcher_of r Some) ?st \<noteq> None)"
    unfolding anchored_test matcher_of.simps(3) ..
  show ?thesis
  proof (cases name)
    case Nil
    have "matcher_of (Maybe (Chr CHR ''_'')) (matcher_of r Some) ?st = matcher_of r Some ?st"
      unfolding maybe_chr using Nil by simp
    then show ?thesis unfolding t using r[of ?st] Nil by (simp add: without_underscore_def)
  next
    case (Cons x xs)
    show ?thesis
    proof (cases "x = CHR ''_''")
      case True
      let ?st1 = "?st\<lparr>m_at := m_at ?st + 1, m_prev := Some x, m_rest := xs\<rparr>"
      have m: "matcher_of (Maybe (Chr CHR ''_'')) (matcher_of r Some) ?st
          = (case matcher_of r Some ?st1 of
               Some y \<Rightarrow> Some y
             | None \<Rightarrow> matcher_of r Some ?st)"
        unfolding maybe_chr using Cons True by simp
      have a: "matcher_of r Some ?st = None" using r[of ?st] u[of xs] Cons True by simp
      have b: "(matcher_of r Some ?st1 = None) = (\<not> Q xs)" using r[of ?st1] by simp
      have "(matcher_of (Maybe (Chr CHR ''_'')) (matcher_of r Some) ?st \<noteq> None) = Q xs"
        unfolding m a using b by (cases "matcher_of r Some ?st1") simp_all
      then show ?thesis unfolding t using Cons True by (simp add: without_underscore_def)
    next
      case False
      have "matcher_of (Maybe (Chr CHR ''_'')) (matcher_of r Some) ?st = matcher_of r Some ?st"
        unfolding maybe_chr using Cons False by simp
      then show ?thesis unfolding t using r[of ?st] Cons False
        by (simp add: without_underscore_def)
    qed
  qed
qed

lemma immutableTest_shape: "test immutableTest name = ordinary_shape name"
proof -
  have r: "immutableTest = Seq Bol (Seq (Maybe (Chr CHR ''_'')) ordinary_tail)"
    by (simp add: immutableTest_def ordinary_tail_def)
  have u: "\<not> ordinary_rest (CHR ''_'' # cs)" for cs
    using underscore_class by (simp add: ordinary_rest_def)
  show ?thesis
    unfolding r optional_underscore[of ordinary_tail ordinary_rest, OF ordinary_tail_matches u]
    by (simp add: ordinary_shape_def ordinary_rest_def)
qed

definition constant_tail :: regex where
  "constant_tail = Seq (Cls (\<lambda>c. is_upper c \<or> is_lower c)) (Seq (Many (Cls is_alnum)) Eol)"

definition constant_rest :: "string \<Rightarrow> bool" where
  "constant_rest s =
     (case s of [] \<Rightarrow> False | c # cs \<Rightarrow> (is_upper c \<or> is_lower c) \<and> list_all is_alnum cs)"

lemma constant_tail_matches:
  "(matcher_of constant_tail Some st = None) = (\<not> constant_rest (m_rest st))"
proof (cases "m_rest st")
  case Nil
  then show ?thesis by (simp add: constant_tail_def constant_rest_def)
next
  case (Cons c cs)
  have "matcher_of constant_tail Some st
      = (if is_upper c \<or> is_lower c
         then matcher_of (Many (Cls is_alnum)) (matcher_of Eol Some)
                (st\<lparr>m_at := m_at st + 1, m_prev := Some c, m_rest := cs\<rparr>)
         else None)"
    unfolding constant_tail_def matcher_of.simps(3) matcher_of.simps(2) using Cons by simp
  then show ?thesis using Cons by (simp add: many_to_end constant_rest_def)
qed

lemma mutableTest_shape: "test mutableTest name = constant_shape name"
proof -
  have r: "mutableTest = Seq Bol (Seq (Maybe (Chr CHR ''_'')) constant_tail)"
    by (simp add: mutableTest_def constant_tail_def)
  have u: "\<not> constant_rest (CHR ''_'' # cs)" for cs
    using underscore_class by (simp add: constant_rest_def)
  show ?thesis
    unfolding r optional_underscore[of constant_tail constant_rest, OF constant_tail_matches u]
    by (simp add: constant_shape_def constant_rest_def)
qed

text \<open>
  C4, as the code has it. For a binding whose name has 3 to 40 characters the finding is
  decided by the shape of the name, and the shapes are assigned the other way round than
  the claim says. A binding that is not constant-eligible yields no finding when its name,
  without one leading underscore if there is one, is a lowercase letter followed by
  letters and digits only or consists of capitals and digits only, and a warning with the
  message for mutable names otherwise. A constant-eligible binding yields no finding when
  its name, without one leading underscore, is a letter followed by letters and digits
  only, and a warning otherwise. So a binding named \<open>ABC\<close> passes whether it is
  constant-eligible or not; a binding named \<open>Abc\<close> yields a warning when it is not
  constant-eligible and passes when it is.
\<close>

theorem naming_shape_by_eligibility:
  "(3 \<le> length (v_name v) \<and> length (v_name v) \<le> 40 \<longrightarrow>
      testVariableName v =
        (if v_staticImmutable v then
           if constant_shape (v_name v) then None
           else Some \<lparr>e_code = v_name v, e_index = Num (v_index v), e_severity = Warning,
                       e_message = immutableShapeMessage\<rparr>
         else
           if ordinary_shape (v_name v) then None
           else Some \<lparr>e_code = v_name v, e_index = Num (v_index v), e_severity = Warning,
                       e_message = mutableShapeMessage\<rparr>))
   \<and> testVariableName \<lparr>v_name = ''ABC'', v_staticImmutable = False, v_index = 0\<rparr> = None
   \<and> testVariableName \<lparr>v_name = ''ABC'', v_staticImmutable = True, v_index = 0\<rparr> = None
   \<and> testVariableName \<lparr>v_name = ''Abc'', v_staticImmutable = False, v_index = 0\<rparr>
       = Some \<lparr>e_code = ''Abc'', e_index = Num 0, e_severity = Warning,
               e_message = mutableShapeMessage\<rparr>
   \<and> testVariableName \<lparr>v_name = ''Abc'', v_staticImmutable = True, v_index = 0\<rparr> = None"
proof -
  have g: "3 \<le> length (v_name v) \<and> length (v_name v) \<le> 40 \<longrightarrow>
      testVariableName v =
        (if v_staticImmutable v then
           if constant_shape (v_name v) then None
           else Some \<lparr>e_code = v_name v, e_index = Num (v_index v), e_severity = Warning,
                       e_message = immutableShapeMessage\<rparr>
         else
           if ordinary_shape (v_name v) then None
           else Some \<lparr>e_code = v_name v, e_index = Num (v_index v), e_severity = Warning,
                       e_message = mutableShapeMessage\<rparr>)"
    by (simp add: testVariableName_def Let_def immutableTest_shape mutableTest_shape)
  have e: "testVariableName \<lparr>v_name = ''ABC'', v_staticImmutable = False, v_index = 0\<rparr> = None
   \<and> testVariableName \<lparr>v_name = ''ABC'', v_staticImmutable = True, v_index = 0\<rparr> = None
   \<and> testVariableName \<lparr>v_name = ''Abc'', v_staticImmutable = False, v_index = 0\<rparr>
       = Some \<lparr>e_code = ''Abc'', e_index = Num 0, e_severity = Warning,
               e_message = mutableShapeMessage\<rparr>
   \<and> testVariableName \<lparr>v_name = ''Abc'', v_staticImmutable = True, v_index = 0\<rparr> = None"
    by code_simp
  from g e show ?thesis by (rule conjI)
qed

theorem naming_shape_by_eligibility_witness:
  "testVariableName \<lparr>v_name = ''_fooBar9'', v_staticImmutable = False, v_index = 4\<rparr> = None
   \<and> testVariableName \<lparr>v_name = ''fo_o'', v_staticImmutable = False, v_index = 4\<rparr>
       = Some \<lparr>e_code = ''fo_o'', e_index = Num 4, e_severity = Warning,
               e_message = mutableShapeMessage\<rparr>
   \<and> testVariableName \<lparr>v_name = ''Foo'', v_staticImmutable = True, v_index = 4\<rparr> = None
   \<and> testVariableName \<lparr>v_name = ''9ab'', v_staticImmutable = True, v_index = 4\<rparr>
       = Some \<lparr>e_code = ''9ab'', e_index = Num 4, e_severity = Warning,
               e_message = immutableShapeMessage\<rparr>"
proof -
  have s: "ordinary_shape ''_fooBar9''" "\<not> ordinary_shape ''fo_o''" "constant_shape ''Foo''"
    "\<not> constant_shape ''9ab''"
    by code_simp+
  show ?thesis
    using
      naming_shape_by_eligibility
        [of "\<lparr>v_name = ''_fooBar9'', v_staticImmutable = False, v_index = 4\<rparr>"]
      naming_shape_by_eligibility
        [of "\<lparr>v_name = ''fo_o'', v_staticImmutable = False, v_index = 4\<rparr>"]
      naming_shape_by_eligibility
        [of "\<lparr>v_name = ''Foo'', v_staticImmutable = True, v_index = 4\<rparr>"]
      naming_shape_by_eligibility
        [of "\<lparr>v_name = ''9ab'', v_staticImmutable = True, v_index = 4\<rparr>"]
      s
    by simp
qed

text \<open>The claim as stated fails: the binding \<open>ABC\<close> that is not constant-eligible yields
  no finding.\<close>

theorem naming_shape_counterexample:
  "testVariableName \<lparr>v_name = ''ABC'', v_staticImmutable = False, v_index = 0\<rparr> = None"
  by code_simp

text \<open>
  C5, as the code has it. A binding whose name has exactly two characters yields a
  finding of severity warning, with the message that the name is too short; only a name
  of fewer than two characters yields an error. A name of three to forty characters
  yields no finding from the length checks: what finding there is, is a warning with
  neither of the two length messages.
\<close>

theorem naming_length_boundary:
  "(length (v_name v) = 2 \<longrightarrow>
      testVariableName v = Some \<lparr>e_code = v_name v, e_index = Num (v_index v),
        e_severity = Warning, e_message = tooShortMessage\<rparr>)
   \<and> (length (v_name v) < 2 \<longrightarrow>
      testVariableName v = Some \<lparr>e_code = v_name v, e_index = Num (v_index v),
        e_severity = Error, e_message = tooShortMessage\<rparr>)
   \<and> (3 \<le> length (v_name v) \<and> length (v_name v) \<le> 40 \<longrightarrow>
      (case testVariableName v of
         None \<Rightarrow> True
       | Some f \<Rightarrow> e_message f \<noteq> tooShortMessage \<and> e_message f \<noteq> tooLongMessage
                   \<and> e_severity f = Warning))"
  using length_messages_differ by (auto simp: testVariableName_def Let_def)

theorem naming_length_boundary_witness:
  "testVariableName \<lparr>v_name = ''ab'', v_staticImmutable = False, v_index = 7\<rparr>
     = Some \<lparr>e_code = ''ab'', e_index = Num 7, e_severity = Warning,
             e_message = tooShortMessage\<rparr>
   \<and> testVariableName \<lparr>v_name = ''a'', v_staticImmutable = False, v_index = 7\<rparr>
     = Some \<lparr>e_code = ''a'', e_index = Num 7, e_severity = Error,
             e_message = tooShortMessage\<rparr>
   \<and> (case testVariableName \<lparr>v_name = ''abc'', v_staticImmutable = False, v_index = 7\<rparr> of
         None \<Rightarrow> True
       | Some f \<Rightarrow> e_message f \<noteq> tooShortMessage \<and> e_message f \<noteq> tooLongMessage
                   \<and> e_severity f = Warning)"
  using naming_length_boundary[of "\<lparr>v_name = ''ab'', v_staticImmutable = False, v_index = 7\<rparr>"]
    naming_length_boundary[of "\<lparr>v_name = ''a'', v_staticImmutable = False, v_index = 7\<rparr>"]
    naming_length_boundary[of "\<lparr>v_name = ''abc'', v_staticImmutable = False, v_index = 7\<rparr>"]
  by simp

text \<open>The claim as stated fails: the binding \<open>ab\<close> yields a warning, not an error.\<close>

theorem naming_length_counterexample:
  "testVariableName \<lparr>v_name = ''ab'', v_staticImmutable = False, v_index = 0\<rparr>
     = Some \<lparr>e_code = ''ab'', e_index = Num 0, e_severity = Warning,
             e_message = tooShortMessage\<rparr>
   \<and> map_option e_severity
        (testVariableName \<lparr>v_name = ''ab'', v_staticImmutable = False, v_index = 0\<rparr>)
       \<noteq> Some Error"
  by (simp add: testVariableName_def)

section \<open>The loops over the matches of a pattern end\<close>

text \<open>A pattern that cannot match the empty string moves \<open>lastIndex\<close> forward with
  every match, so the loop over its matches ends. Every pattern of the linter is such a
  pattern.\<close>

lemma execAll_returns: "0 < minlen r \<Longrightarrow> \<exists>ms. execAll r s i = Some ms"
proof (induction r s i rule: execAll.induct)
  case (1 r s lastIndex)
  show ?case
  proof (cases "exec r s lastIndex")
    case None
    then show ?thesis by (subst execAll.simps) simp
  next
    case (Some mt)
    from exec_bounds[OF Some] "1.prems" have gt: "\<not> mt_end mt \<le> lastIndex" by linarith
    from "1.IH"[OF Some gt "1.prems"] obtain ms where "execAll r s (mt_end mt) = Some ms" by blast
    then show ?thesis using Some gt by (subst execAll.simps) simp
  qed
qed

lemma minlen_Seqs: "minlen (Seqs rs) = sum_list (map minlen rs)"
  by (induction rs rule: Seqs.induct) auto

lemma minlen_Alts: "rs \<noteq> [] \<Longrightarrow> minlen (Alts rs) = Min (set (map minlen rs))"
  by (induction rs rule: Alts.induct) auto

lemma minlen_Lit: "minlen (Lit cs) = length cs"
  by (induction cs) (auto simp: Lit_def minlen_Seqs Chr_def)

lemma minlen_searchRegex: "0 < minlen (searchRegex type)"
  by (simp add: searchRegex_def minlen_Seqs Many1_def Space_def)

lemma minlen_fixed:
  "0 < minlen keyRegex" "0 < minlen varRegex" "0 < minlen variableRegex"
  "0 < minlen typealiasRegex" "0 < minlen braceRegex" "0 < minlen openingBraceException"
  by (simp_all add: keyRegex_def varRegex_def variableRegex_def typealiasRegex_def
      braceRegex_def openingBraceException_def minlen_Seqs minlen_Lit Many_def Many1_def Maybe_def
      LazyMany_def LazyMany1_def Space_def NotSpace_def Chr_def NoneOf_def)

lemma minlen_rules:
  "rule \<in> set allRegexRules \<Longrightarrow> p \<in> set (rePatterns rule) \<Longrightarrow> 0 < minlen p"
  by (auto simp: allRegexRules_def closingBraceRule_def colonRule_def commaRule_def
      conditionalReturnsOnNewlineRule_def controlStatementRule_def parenthesised_def
      emptyCountRule_def forceCastRule_def forceTryRule_def leadingWhitespaceRule_def
      legacyNSGeometryFunctionsRule_def legacyNSGeometryFunctions_def
      openingBraceRule_def openingBracePattern_def
      redundantNilCoalescingRule_def returnArrowWhiteSpaceRule_def returnArrowPatterns_def
      incorrectSpaceRegex_def spaceRegex_def trailingNewlineRule_def trailingSemicolonRule_def
      trailingWhitespaceRule_def verticalWhitespaceRule_def
      minlen_Seqs minlen_Lit Many_def Many1_def Maybe_def
      LazyMany_def LazyMany1_def Space_def NotSpace_def SpaceZ_def BlankNotNewline_def
      Chr_def NoneOf_def OneOf_def)

lemma minlen_exceptions:
  "rule \<in> set allRegexRules \<Longrightarrow> exceptions rule = Some es \<Longrightarrow> e \<in> set es \<Longrightarrow> 0 < minlen e"
  by (auto simp: allRegexRules_def closingBraceRule_def colonRule_def commaRule_def
      conditionalReturnsOnNewlineRule_def controlStatementRule_def
      emptyCountRule_def forceCastRule_def forceTryRule_def leadingWhitespaceRule_def
      legacyNSGeometryFunctionsRule_def
      openingBraceRule_def openingBraceException_def
      redundantNilCoalescingRule_def returnArrowWhiteSpaceRule_def
      trailingNewlineRule_def trailingSemicolonRule_def
      trailingWhitespaceRule_def verticalWhitespaceRule_def
      minlen_Seqs minlen_Lit Many_def Many1_def Maybe_def
      LazyMany_def LazyMany1_def Space_def NotSpace_def Chr_def NoneOf_def)

lemma exception_loop_returns:
  "(\<forall>e\<in>set es. 0 < minlen e) \<Longrightarrow> \<exists>ranges. exception_loop text es = Some ranges"
proof (induction es)
  case Nil
  show ?case by simp
next
  case (Cons e es)
  from Cons.prems obtain ms where "execAll e text 0 = Some ms"
    using execAll_returns[of e "text" 0] by auto
  moreover from Cons obtain ranges where "exception_loop text es = Some ranges" by auto
  ultimately show ?case by simp
qed

lemma patterns_return:
  "(\<forall>p\<in>set ps. 0 < minlen p) \<Longrightarrow>
     \<exists>mss. list_all2 (\<lambda>p ms. execAll p text 0 = Some ms) ps mss"
proof (induction ps)
  case Nil
  show ?case by simp
next
  case (Cons p ps)
  from Cons.prems obtain ms where "execAll p text 0 = Some ms"
    using execAll_returns[of p "text" 0] by auto
  moreover from Cons obtain mss where
    "list_all2 (\<lambda>p ms. execAll p text 0 = Some ms) ps mss" by auto
  ultimately have "list_all2 (\<lambda>p ms. execAll p text 0 = Some ms) (p # ps) (ms # mss)"
    by simp
  then show ?case by blast
qed

section \<open>Properties of the pattern rules\<close>

lemma regexException_iff:
  "regexException i ranges \<longleftrightarrow> (\<exists>r\<in>set ranges. range_start r \<le> i \<and> i < range_end r)"
  by (induction ranges) auto

lemma pattern_findings_append:
  "pattern_findings text rule ranges (ms @ ms') =
     pattern_findings text rule ranges ms @ pattern_findings text rule ranges ms'"
  by (simp add: pattern_findings_def)

lemma pattern_loop_all:
  "list_all2 (\<lambda>p ms. execAll p text 0 = Some ms) ps mss \<Longrightarrow>
     pattern_loop text rule ranges ps = Some (pattern_findings text rule ranges (concat mss))"
  by (induction ps mss rule: list_all2_induct)
     (auto simp: pattern_findings_append, simp add: pattern_findings_def)

lemma regexRule_filters:
  assumes "processExceptions text (exceptions rule) = Some ranges"
    and "list_all2 (\<lambda>p ms. execAll p text 0 = Some ms) (rePatterns rule) mss"
  shows "regexRule text rule =
     Some (map (\<lambda>mt. \<lparr>e_code = matched text mt, e_index = Num (int (mt_index mt)),
                       e_severity = rule_severity rule, e_message = rule_message rule\<rparr>)
            (filter (\<lambda>mt. \<not> (\<exists>r\<in>set ranges. range_start r \<le> mt_index mt
                                  \<and> mt_index mt < range_end r))
               (concat mss)))"
  using assms pattern_loop_all[OF assms(2), of rule ranges]
  by (simp add: regexRule_def pattern_findings_def regexException_iff)

text \<open>A header over several lines, and a header on one line.\<close>

definition multiLineIf :: string where
  "multiLineIf = ''if'' @ [newline] @ ''  x == 1'' @ [newline] @ ''{''"

definition singleLineIf :: string where
  "singleLineIf = ''if (x){''"

text \<open>
  C7. For every rule of the pattern family, the exception patterns and the patterns of
  the rule are matched over the whole text, and the findings of the rule are the matches
  of its patterns, in order, without those whose start offset \<open>o\<close> lies in some exception
  range, \<open>start \<le> o < end\<close>: a finding is suppressed if and only if such a range exists.
  In the header over several lines the brace is matched at offset 11, inside the
  exception range from 0 to 13, and the opening brace rule has no finding; in
  \<open>if (x){\<close> there is no exception range and the rule has one finding, at offset 5.
\<close>

theorem exception_suppression:
  "(\<forall>rule\<in>set allRegexRules.
      \<exists>ranges mss.
        processExceptions text (exceptions rule) = Some ranges
        \<and> list_all2 (\<lambda>p ms. execAll p text 0 = Some ms) (rePatterns rule) mss
        \<and> regexRule text rule =
            Some (map (\<lambda>mt. \<lparr>e_code = matched text mt, e_index = Num (int (mt_index mt)),
                              e_severity = rule_severity rule,
                              e_message = rule_message rule\<rparr>)
                   (filter (\<lambda>mt. \<not> (\<exists>r\<in>set ranges. range_start r \<le> mt_index mt
                                         \<and> mt_index mt < range_end r))
                      (concat mss))))
   \<and> processExceptions multiLineIf (exceptions openingBraceRule)
       = Some [\<lparr>range_start = 0, range_end = 13\<rparr>]
   \<and> execAll openingBracePattern multiLineIf 0
       = Some [\<lparr>mt_index = 11, mt_end = 13, mt_caps = [(1, 11, 13)]\<rparr>]
   \<and> regexRule multiLineIf openingBraceRule = Some []
   \<and> processExceptions singleLineIf (exceptions openingBraceRule) = Some []
   \<and> regexRule singleLineIf openingBraceRule
       = Some [\<lparr>e_code = ''){'', e_index = Num 5, e_severity = Warning,
                 e_message = rule_message openingBraceRule\<rparr>]"
proof -
  have general: "\<exists>ranges mss.
        processExceptions text (exceptions rule) = Some ranges
        \<and> list_all2 (\<lambda>p ms. execAll p text 0 = Some ms) (rePatterns rule) mss
        \<and> regexRule text rule =
            Some (map (\<lambda>mt. \<lparr>e_code = matched text mt, e_index = Num (int (mt_index mt)),
                              e_severity = rule_severity rule,
                              e_message = rule_message rule\<rparr>)
                   (filter (\<lambda>mt. \<not> (\<exists>r\<in>set ranges. range_start r \<le> mt_index mt
                                         \<and> mt_index mt < range_end r))
                      (concat mss)))"
    if rule: "rule \<in> set allRegexRules" for rule
  proof -
    have "\<exists>ranges. processExceptions text (exceptions rule) = Some ranges"
    proof (cases "exceptions rule")
      case None
      then show ?thesis by (simp add: processExceptions_def)
    next
      case (Some es)
      then show ?thesis
        using exception_loop_returns[of es "text"] minlen_exceptions[OF rule Some]
        by (simp add: processExceptions_def)
    qed
    then obtain ranges where r: "processExceptions text (exceptions rule) = Some ranges" by blast
    obtain mss where m: "list_all2 (\<lambda>p ms. execAll p text 0 = Some ms) (rePatterns rule) mss"
      using patterns_return[of "rePatterns rule" "text"] minlen_rules[OF rule] by blast
    from r m regexRule_filters[OF r m] show ?thesis by blast
  qed
  have e1: "processExceptions multiLineIf (exceptions openingBraceRule)
       = Some [\<lparr>range_start = 0, range_end = 13\<rparr>]" by code_simp
  have e2: "execAll openingBracePattern multiLineIf 0
       = Some [\<lparr>mt_index = 11, mt_end = 13, mt_caps = [(1, 11, 13)]\<rparr>]" by code_simp
  have e3: "regexRule multiLineIf openingBraceRule = Some []" by code_simp
  have e4: "processExceptions singleLineIf (exceptions openingBraceRule) = Some []"
    by code_simp
  have e5: "regexRule singleLineIf openingBraceRule
       = Some [\<lparr>e_code = ''){'', e_index = Num 5, e_severity = Warning,
                 e_message = rule_message openingBraceRule\<rparr>]" by code_simp
  from general e1 e2 e3 e4 e5 show ?thesis by blast
qed

theorem exception_suppression_witness:
  "openingBraceRule \<in> set allRegexRules
   \<and> (\<exists>ranges mss.
        processExceptions multiLineIf (exceptions openingBraceRule) = Some ranges
        \<and> list_all2 (\<lambda>p ms. execAll p multiLineIf 0 = Some ms)
             (rePatterns openingBraceRule) mss
        \<and> regexRule multiLineIf openingBraceRule =
            Some (map (\<lambda>mt. \<lparr>e_code = matched multiLineIf mt,
                              e_index = Num (int (mt_index mt)),
                              e_severity = rule_severity openingBraceRule,
                              e_message = rule_message openingBraceRule\<rparr>)
                   (filter (\<lambda>mt. \<not> (\<exists>r\<in>set ranges. range_start r \<le> mt_index mt
                                         \<and> mt_index mt < range_end r))
                      (concat mss))))"
proof -
  have m: "openingBraceRule \<in> set allRegexRules" by (simp add: allRegexRules_def)
  with exception_suppression[of multiLineIf] show ?thesis by blast
qed

section \<open>Properties of the parameter scan\<close>

text \<open>The count of parameters in the words of the specification, over the text \<open>t\<close> from
  the first opening parenthesis on: the depth after a prefix is the number of its opening
  parentheses minus that of its closing ones; the scan ends after the first nonempty
  prefix of depth \<open>0\<close>, or at the end of the text; a comma is a parameter boundary when
  the depth at it is exactly \<open>1\<close>; the count is one more than the boundaries before the
  end of the scan.\<close>

definition paren_depth :: "string \<Rightarrow> int" where
  "paren_depth s = int (count_list s CHR ''('') - int (count_list s CHR '')'')"

definition first_balanced :: "string \<Rightarrow> nat option" where
  "first_balanced t = find (\<lambda>n. paren_depth (take n t) = 0) [1..<Suc (length t)]"

definition top_level_commas :: "string \<Rightarrow> nat \<Rightarrow> nat" where
  "top_level_commas t stop =
     length (filter (\<lambda>j. t ! j = CHR '','' \<and> paren_depth (take (Suc j) t) = 1) [0..<stop])"

definition counted_parameters :: "string \<Rightarrow> int" where
  "counted_parameters t =
     1 + int (top_level_commas t (case first_balanced t of Some n \<Rightarrow> n | None \<Rightarrow> length t))"

lemma indexOf_scan_chr:
  "indexOf_scan [c] s i =
     (if c \<in> set s then i + int (length (takeWhile (\<lambda>x. x \<noteq> c) s)) else - 1)"
  by (induction s arbitrary: i) auto

lemma js_indexOf_chr:
  "js_indexOf s [c] = (if c \<in> set s then int (length (takeWhile (\<lambda>x. x \<noteq> c) s)) else - 1)"
  by (simp add: js_indexOf_def indexOf_scan_chr)

lemma paren_depth_snoc:
  "paren_depth (s @ [c]) =
     paren_depth s + (if c = CHR ''('' then 1 else 0) - (if c = CHR '')'' then 1 else 0)"
  by (simp add: paren_depth_def)

lemma top_level_commas_Suc:
  "top_level_commas t (Suc k) =
     top_level_commas t k + (if t ! k = CHR '','' \<and> paren_depth (take (Suc k) t) = 1 then 1 else 0)"
  by (simp add: top_level_commas_def)

lemma find_upt_first:
  assumes "a \<le> n" "n < b" "P n" "\<forall>j. a \<le> j \<and> j < n \<longrightarrow> \<not> P j"
  shows "find P [a..<b] = Some n"
  using assms
proof (induction "n - a" arbitrary: a)
  case 0
  then have "a = n" by simp
  then show ?case using 0 by (simp add: upt_rec[of n b])
next
  case (Suc d)
  then have lt: "a < n" "\<not> P a" by auto
  have "find P [a..<b] = find P [Suc a..<b]" using lt Suc.prems by (simp add: upt_rec[of a b])
  also have "\<dots> = Some n" using Suc lt by (intro Suc.hyps) auto
  finally show ?case .
qed

lemma find_upt_none: "(\<forall>j. a \<le> j \<and> j < b \<longrightarrow> \<not> P j) \<Longrightarrow> find P [a..<b] = None"
  by (simp add: find_None_iff)

lemma param_loop_scan:
  assumes "k \<le> length t" "t = drop p functionInfo" "p \<le> length functionInfo"
    and "depth = paren_depth (take k t)"
    and "paramCount = 1 + int (top_level_commas t k)"
    and "\<forall>n. 1 \<le> n \<and> n \<le> k \<longrightarrow> paren_depth (take n t) \<noteq> 0"
  shows "param_loop functionInfo (int (p + k)) depth paramCount =
     (case first_balanced t of
        Some n \<Rightarrow> (1 + int (top_level_commas t n), int (p + n))
      | None \<Rightarrow> (1 + int (top_level_commas t (length t)), - 1))"
  using assms
proof (induction "length t - k" arbitrary: k depth paramCount)
  case 0
  then have k: "k = length t" by simp
  have len: "length t = length functionInfo - p" using 0 by simp
  have "first_balanced t = None"
    unfolding first_balanced_def using "0.prems"(6) k by (intro find_upt_none) auto
  moreover have "param_loop functionInfo (int (p + k)) depth paramCount = (paramCount, - 1)"
    using k len "0.prems"(3) by (subst param_loop.simps) auto
  ultimately show ?case using 0 k by simp
next
  case (Suc d)
  then have k: "k < length t" by simp
  have len: "length t = length functionInfo - p" using Suc by simp
  let ?c = "t ! k"
  have c: "js_charAt functionInfo (int (p + k)) = [?c]"
    using k len Suc.prems(2) by (auto simp: js_charAt_def nat_add_distrib)
  let ?d2 = "paren_depth (take (Suc k) t)"
  have d2: "?d2 = depth + (if ?c = CHR ''('' then 1 else 0) - (if ?c = CHR '')'' then 1 else 0)"
    using k Suc.prems(4) by (simp add: take_Suc_conv_app_nth paren_depth_snoc)
  let ?pc = "1 + int (top_level_commas t (Suc k))"
  have pc: "?pc = (if ?d2 = 1 \<and> ?c = CHR '','' then paramCount + 1 else paramCount)"
    using Suc.prems(5) by (auto simp: top_level_commas_Suc)
  have step: "param_loop functionInfo (int (p + k)) depth paramCount =
      (if ?d2 = 0 then (?pc, int (p + k) + 1)
       else param_loop functionInfo (int (p + k) + 1) ?d2 ?pc)"
    using k len c d2 pc by (subst param_loop.simps) (auto simp: Let_def)
  show ?case
  proof (cases "?d2 = 0")
    case True
    have "first_balanced t = Some (Suc k)"
      unfolding first_balanced_def using True k Suc.prems(6)
      by (intro find_upt_first) auto
    then show ?thesis using step True by simp
  next
    case False
    have "param_loop functionInfo (int (p + Suc k)) ?d2 ?pc =
     (case first_balanced t of
        Some n \<Rightarrow> (1 + int (top_level_commas t n), int (p + n))
      | None \<Rightarrow> (1 + int (top_level_commas t (length t)), - 1))"
      using Suc.hyps(2) k Suc.prems(2,3,6) False
      by (intro Suc.hyps(1)) (auto simp: le_Suc_eq)
    then show ?thesis using step False by (simp add: add.commute add.left_commute)
  qed
qed

definition nestedParens :: string where
  "nestedParens = ''func f(a: Int, b: (Int, Int) -> Int, c: String) { }''"

definition nestedParensFunction :: body where
  "nestedParensFunction =
     \<lparr>b_code = nestedParens, b_name = ''f'', b_index = 0, b_type = ''func'', b_maxDepth = 1,
      b_paramCount = Undefined, b_params = Undefined\<rparr>"

lemma getFunctionParameters_count:
  assumes "\<not> test noParamRegex (b_code f)"
    and "exec paramRegex (b_code f) 0 = Some mt"
    and "capture (b_code f) mt 1 = Some functionInfo"
    and "CHR ''('' \<in> set functionInfo"
  shows "map_option b_paramCount (getFunctionParameters f) =
     Some (Def (counted_parameters (dropWhile (\<lambda>x. x \<noteq> CHR ''('') functionInfo)))"
proof -
  let ?p = "length (takeWhile (\<lambda>x. x \<noteq> CHR ''('') functionInfo)"
  let ?t = "dropWhile (\<lambda>x. x \<noteq> CHR ''('') functionInfo"
  have p: "js_indexOf functionInfo ''('' = int ?p"
    using assms(4) by (simp add: js_indexOf_chr)
  have t: "?t = drop ?p functionInfo" by (rule dropWhile_eq_drop)
  have "param_loop functionInfo (int (?p + 0)) 0 1 =
     (case first_balanced ?t of
        Some n \<Rightarrow> (1 + int (top_level_commas ?t n), int (?p + n))
      | None \<Rightarrow> (1 + int (top_level_commas ?t (length ?t)), - 1))"
    by (rule param_loop_scan)
       (auto simp: t paren_depth_def top_level_commas_def length_takeWhile_le)
  then have "fst (param_loop functionInfo (js_indexOf functionInfo ''('') 0 1) =
      counted_parameters ?t"
    by (auto simp: p counted_parameters_def split: option.splits)
  then show ?thesis
    using assms(1,2,3) by (auto simp: getFunctionParameters_def Let_def split: prod.splits)
qed


text \<open>
  C2. For a function whose code is not of the shape without parameters and matches the
  parameter pattern, with an opening parenthesis in the captured text, the count that
  \<open>getFunctionParameters\<close> stores is that of the specification: one, plus the commas at
  depth exactly \<open>1\<close> before the scan ends, the scan ending the first time the depth is
  back at \<open>0\<close>. The function extracted from
  \<open>func f(a: Int, b: (Int, Int) -> Int, c: String) { }\<close> gets the count \<open>3\<close>.
\<close>

theorem parameter_counting:
  "(\<not> test noParamRegex (b_code f) \<and> exec paramRegex (b_code f) 0 = Some mt
      \<and> capture (b_code f) mt 1 = Some functionInfo \<and> CHR ''('' \<in> set functionInfo
    \<longrightarrow> map_option b_paramCount (getFunctionParameters f) =
          Some (Def (counted_parameters (dropWhile (\<lambda>x. x \<noteq> CHR ''('') functionInfo))))
   \<and> Option.bind (extractFunctions nestedParens) parameters_loop
       = Some [nestedParensFunction
                 \<lparr>b_paramCount := Def 3,
                  b_params := Def ''a: Int, b: (Int, Int) -> Int, c: String''\<rparr>]"
proof -
  have "Option.bind (extractFunctions nestedParens) parameters_loop
       = Some [nestedParensFunction
                 \<lparr>b_paramCount := Def 3,
                  b_params := Def ''a: Int, b: (Int, Int) -> Int, c: String''\<rparr>]"
    by code_simp
  then show ?thesis using getFunctionParameters_count[of f mt functionInfo] by blast
qed

theorem parameter_counting_witness:
  "\<not> test noParamRegex (b_code nestedParensFunction)
   \<and> exec paramRegex (b_code nestedParensFunction) 0
       = Some \<lparr>mt_index = 0, mt_end = 49, mt_caps = [(1, 6, 48)]\<rparr>
   \<and> capture (b_code nestedParensFunction)
         \<lparr>mt_index = 0, mt_end = 49, mt_caps = [(1, 6, 48)]\<rparr> 1
       = Some ''(a: Int, b: (Int, Int) -> Int, c: String) ''
   \<and> CHR ''('' \<in> set ''(a: Int, b: (Int, Int) -> Int, c: String) ''
   \<and> map_option b_paramCount (getFunctionParameters nestedParensFunction) =
          Some (Def (counted_parameters (dropWhile (\<lambda>x. x \<noteq> CHR ''('')
                       ''(a: Int, b: (Int, Int) -> Int, c: String) '')))
   \<and> counted_parameters (dropWhile (\<lambda>x. x \<noteq> CHR ''('')
                       ''(a: Int, b: (Int, Int) -> Int, c: String) '') = 3"
proof -
  have a: "\<not> test noParamRegex (b_code nestedParensFunction)" by code_simp
  have b: "exec paramRegex (b_code nestedParensFunction) 0
       = Some \<lparr>mt_index = 0, mt_end = 49, mt_caps = [(1, 6, 48)]\<rparr>" by code_simp
  have c: "capture (b_code nestedParensFunction)
         \<lparr>mt_index = 0, mt_end = 49, mt_caps = [(1, 6, 48)]\<rparr> 1
       = Some ''(a: Int, b: (Int, Int) -> Int, c: String) ''" by code_simp
  have d: "CHR ''('' \<in> set ''(a: Int, b: (Int, Int) -> Int, c: String) ''" by simp
  have e: "counted_parameters (dropWhile (\<lambda>x. x \<noteq> CHR ''('')
                       ''(a: Int, b: (Int, Int) -> Int, c: String) '') = 3" by code_simp
  from a b c d e
    parameter_counting[of nestedParensFunction
      "\<lparr>mt_index = 0, mt_end = 49, mt_caps = [(1, 6, 48)]\<rparr>"
      "''(a: Int, b: (Int, Int) -> Int, c: String) ''"]
  show ?thesis by blast
qed

section \<open>Properties of body extraction\<close>

text \<open>The brace depth of a text is the number of its opening braces minus that of its
  closing ones.\<close>

definition is_brace :: "char \<Rightarrow> bool" where
  "is_brace c \<longleftrightarrow> c = CHR ''{'' \<or> c = CHR ''}''"

definition brace_depth :: "string \<Rightarrow> int" where
  "brace_depth s = int (count_list s CHR ''{'') - int (count_list s CHR ''}'')"

lemma lazy_until:
  assumes Q: "\<And>c. Q c \<longleftrightarrow> c \<noteq> c0 \<and> P c"
  shows "length (m_rest st) \<le> n \<Longrightarrow>
   rep n (matcher_of (Cls P)) False 0 None (matcher_of (Chr c0) Some) st =
     (case dropWhile Q (m_rest st) of
        [] \<Rightarrow> None
      | c # cs \<Rightarrow>
          if c = c0 then
            Some (st\<lparr>m_at := m_at st + length (takeWhile Q (m_rest st)) + 1,
                     m_prev := Some c0, m_rest := cs\<rparr>)
          else None)"
proof (induction "m_rest st" arbitrary: st n)
  case Nil
  then show ?case by (cases n) (auto simp: Chr_def Let_def)
next
  case (Cons c cs)
  have r: "m_rest st = c # cs" using Cons.hyps(2) by simp
  then obtain n' where n: "n = Suc n'" "length cs \<le> n'" using Cons.prems by (cases n) auto
  show ?case
  proof (cases "c = c0")
    case True
    then show ?thesis using r n Q[of c] by (simp add: Chr_def Let_def)
  next
    case False
    show ?thesis
    proof (cases "P c")
      case True
      let ?st' = "st\<lparr>m_at := m_at st + 1, m_prev := Some c, m_rest := cs\<rparr>"
      have "rep n (matcher_of (Cls P)) False 0 None (matcher_of (Chr c0) Some) st =
            rep n' (matcher_of (Cls P)) False 0 None (matcher_of (Chr c0) Some) ?st'"
        using r n False True by (simp add: Chr_def Let_def)
      also have "\<dots> = (case dropWhile Q (m_rest ?st') of
        [] \<Rightarrow> None
      | c # cs \<Rightarrow>
          if c = c0 then
            Some (?st'\<lparr>m_at := m_at ?st' + length (takeWhile Q (m_rest ?st')) + 1,
                     m_prev := Some c0, m_rest := cs\<rparr>)
          else None)"
        using n by (intro Cons.hyps(1)) auto
      finally have eq: "rep n (matcher_of (Cls P)) False 0 None (matcher_of (Chr c0) Some) st =
        (case dropWhile Q cs of
        [] \<Rightarrow> None
      | d # ds \<Rightarrow>
          if d = c0 then
            Some (st\<lparr>m_at := m_at st + length (takeWhile Q cs) + 2,
                     m_prev := Some c0, m_rest := ds\<rparr>)
          else None)"
        by (cases "dropWhile Q cs") (simp_all del: dropWhile_eq_Nil_conv)
      have Qc: "Q c" using Q[of c] False True by simp
      show ?thesis
      proof (cases "dropWhile Q cs")
        case Nil
        then show ?thesis using eq r Qc by (simp del: dropWhile_eq_Nil_conv)
      next
        case (Cons d ds)
        then show ?thesis using eq r Qc by simp
      qed
    next
      case F: False
      then show ?thesis using r n False Q[of c] by (simp add: Chr_def Let_def)
    qed
  qed
qed

lemma dropWhile_hd_brace: "dropWhile (\<lambda>c. \<not> is_brace c) r = c # cs \<Longrightarrow> is_brace c"
  using hd_dropWhile[of "\<lambda>c. \<not> is_brace c" r] by auto

lemma braceRegex_matcher:
  "matcher_of braceRegex Some st =
     (case dropWhile (\<lambda>c. \<not> is_brace c) (m_rest st) of
        [] \<Rightarrow> None
      | c # cs \<Rightarrow>
          Some (st\<lparr>m_at := m_at st + length (takeWhile (\<lambda>c. \<not> is_brace c) (m_rest st)) + 1,
                   m_prev := Some c, m_rest := cs\<rparr>))"
proof -
  have a: "matcher_of (Seq (LazyMany (NoneOf ''}'')) (Chr CHR ''{'')) Some st =
     (case dropWhile (\<lambda>c. \<not> is_brace c) (m_rest st) of
        [] \<Rightarrow> None
      | c # cs \<Rightarrow>
          if c = CHR ''{'' then
            Some (st\<lparr>m_at := m_at st + length (takeWhile (\<lambda>c. \<not> is_brace c) (m_rest st)) + 1,
                     m_prev := Some CHR ''{'', m_rest := cs\<rparr>)
          else None)"
    unfolding LazyMany_def NoneOf_def matcher_of.simps(3) matcher_of.simps(5) add_0
    by (rule lazy_until) (auto simp: is_brace_def)
  have b: "matcher_of (Seq (LazyMany (NoneOf ''{'')) (Chr CHR ''}'')) Some st =
     (case dropWhile (\<lambda>c. \<not> is_brace c) (m_rest st) of
        [] \<Rightarrow> None
      | c # cs \<Rightarrow>
          if c = CHR ''}'' then
            Some (st\<lparr>m_at := m_at st + length (takeWhile (\<lambda>c. \<not> is_brace c) (m_rest st)) + 1,
                     m_prev := Some CHR ''}'', m_rest := cs\<rparr>)
          else None)"
    unfolding LazyMany_def NoneOf_def matcher_of.simps(3) matcher_of.simps(5) add_0
    by (rule lazy_until) (auto simp: is_brace_def)
  have m: "matcher_of braceRegex Some st =
      (case matcher_of (Seq (LazyMany (NoneOf ''}'')) (Chr CHR ''{'')) Some st of
         None \<Rightarrow> matcher_of (Seq (LazyMany (NoneOf ''{'')) (Chr CHR ''}'')) Some st
       | Some r \<Rightarrow> Some r)"
    by (simp only: braceRegex_def matcher_of.simps)
  show ?thesis
  proof (cases "dropWhile (\<lambda>c. \<not> is_brace c) (m_rest st)")
    case Nil
    then show ?thesis unfolding m a b by (simp del: dropWhile_eq_Nil_conv)
  next
    case (Cons c cs)
    then have "is_brace c" by (rule dropWhile_hd_brace)
    then show ?thesis unfolding m a b using Cons by (auto simp: is_brace_def)
  qed
qed

lemma braceRegex_scan:
  "exec_scan braceRegex i prev r =
     (case dropWhile (\<lambda>c. \<not> is_brace c) r of
        [] \<Rightarrow> None
      | c # cs \<Rightarrow> Some \<lparr>mt_index = i,
                         mt_end = i + length (takeWhile (\<lambda>c. \<not> is_brace c) r) + 1,
                         mt_caps = []\<rparr>)"
proof (induction r arbitrary: i prev)
  case Nil
  show ?case by (simp add: braceRegex_matcher)
next
  case (Cons c cs)
  show ?case
  proof (cases "dropWhile (\<lambda>c. \<not> is_brace c) (c # cs)")
    case Nil
    then have c: "\<not> is_brace c" and cs: "dropWhile (\<lambda>c. \<not> is_brace c) cs = []"
      by (auto split: if_splits)
    show ?thesis using Cons.IH[of "i + 1" "Some c"] c
      by (simp add: braceRegex_matcher cs del: dropWhile_eq_Nil_conv)
  next
    case (Cons d ds)
    then show ?thesis by (simp add: braceRegex_matcher)
  qed
qed

lemma braceRegex_exec:
  "i \<le> length s \<Longrightarrow> exec braceRegex s i =
     (case dropWhile (\<lambda>c. \<not> is_brace c) (drop i s) of
        [] \<Rightarrow> None
      | c # cs \<Rightarrow> Some \<lparr>mt_index = i,
                         mt_end = i + length (takeWhile (\<lambda>c. \<not> is_brace c) (drop i s)) + 1,
                         mt_caps = []\<rparr>)"
  by (simp add: exec_def braceRegex_scan)

text \<open>The prefix of length \<open>n\<close> of \<open>s\<close> is where the depth first returns to \<open>0\<close>: it
  ends with a brace, its depth is \<open>0\<close>, and every shorter prefix that ends with a brace
  has a positive depth.\<close>

definition first_return :: "string \<Rightarrow> nat \<Rightarrow> bool" where
  "first_return s n \<longleftrightarrow>
     0 < n \<and> n \<le> length s \<and> is_brace (s ! (n - 1)) \<and> brace_depth (take n s) = 0
     \<and> list_all (\<lambda>m. is_brace (s ! (m - 1)) \<longrightarrow> 0 < brace_depth (take m s)) [1..<n]"

lemma first_return_iff:
  "first_return s n \<longleftrightarrow>
     0 < n \<and> n \<le> length s \<and> is_brace (s ! (n - 1)) \<and> brace_depth (take n s) = 0
     \<and> (\<forall>m. 0 < m \<and> m < n \<and> is_brace (s ! (m - 1)) \<longrightarrow> 0 < brace_depth (take m s))"
  unfolding first_return_def list_all_iff
  by (intro arg_cong2[where f = "(\<and>)"] refl) (auto simp: Suc_le_eq)

lemma brace_depth_append: "brace_depth (a @ b) = brace_depth a + brace_depth b"
  by (simp add: brace_depth_def)

lemma brace_depth_no_brace: "\<forall>x\<in>set xs. \<not> is_brace x \<Longrightarrow> brace_depth xs = 0"
  by (induction xs) (auto simp: brace_depth_def is_brace_def)

lemma brace_step:
  assumes i: "i \<le> length s"
    and dw: "dropWhile (\<lambda>c. \<not> is_brace c) (drop i s) = c # cs"
  defines "j \<equiv> i + length (takeWhile (\<lambda>c. \<not> is_brace c) (drop i s))"
  shows "j < length s" "s ! j = c" "is_brace c"
    "take (Suc j) s = take i s @ takeWhile (\<lambda>c. \<not> is_brace c) (drop i s) @ [c]"
    "substr s i (Suc j) = takeWhile (\<lambda>c. \<not> is_brace c) (drop i s) @ [c]"
    "brace_depth (take (Suc j) s) = brace_depth (take i s) + brace_depth [c]"
    "\<forall>n. i < n \<and> n \<le> j \<longrightarrow> \<not> is_brace (s ! (n - 1))"
proof -
  let ?pre = "takeWhile (\<lambda>c. \<not> is_brace c) (drop i s)"
  have d: "drop i s = ?pre @ c # cs"
    using dw takeWhile_dropWhile_id[of "\<lambda>c. \<not> is_brace c" "drop i s"] by simp
  have s: "s = take i s @ ?pre @ c # cs" using d append_take_drop_id[of i s] by simp
  have li: "length (take i s) = i" using i by simp
  show c: "is_brace c" using dw by (rule dropWhile_hd_brace)
  have len: "length s = i + length ?pre + Suc (length cs)"
    using arg_cong[OF s, of length] li by simp
  then show jl: "j < length s" by (simp add: j_def)
  have "s ! j = (take i s @ ?pre @ c # cs) ! (i + length ?pre)" using s by (simp add: j_def)
  also have "\<dots> = c" using li by (simp add: nth_append)
  finally show "s ! j = c" .
  have "take (Suc j) s = take (Suc j) (take i s @ ?pre @ c # cs)" using s by simp
  also have "\<dots> = take i s @ ?pre @ [c]" using li by (simp add: j_def)
  finally show t: "take (Suc j) s = take i s @ ?pre @ [c]" .
  have "substr s i (Suc j) = take (Suc (length ?pre)) (drop i s)"
    by (simp add: substr_def j_def)
  also have "\<dots> = ?pre @ [c]" by (subst d) simp
  finally show "substr s i (Suc j) = ?pre @ [c]" .
  have nb: "\<forall>x\<in>set ?pre. \<not> is_brace x" by (auto dest: set_takeWhileD)
  show "brace_depth (take (Suc j) s) = brace_depth (take i s) + brace_depth [c]"
    unfolding t by (simp add: brace_depth_append brace_depth_no_brace[OF nb])
  show "\<forall>n. i < n \<and> n \<le> j \<longrightarrow> \<not> is_brace (s ! (n - 1))"
  proof (intro allI impI)
    fix n assume n: "i < n \<and> n \<le> j"
    then have k: "n - 1 - i < length ?pre" by (auto simp: j_def)
    have "s ! (n - 1) = drop i s ! (n - 1 - i)" using n i by simp
    also have "\<dots> = ?pre ! (n - 1 - i)" using k by (subst d) (simp add: nth_append)
    finally have "s ! (n - 1) \<in> set ?pre" using k by simp
    then show "\<not> is_brace (s ! (n - 1))" using nb by blast
  qed
qed

lemma brace_depth_single:
  "brace_depth [c] = (if c = CHR ''{'' then 1 else if c = CHR ''}'' then - 1 else 0)"
  by (simp add: brace_depth_def)

lemma brace_loop_spec:
  assumes "i \<le> length s" "b_code body = take i s" "depth = brace_depth (take i s)"
    "i = 0 \<or> 0 < depth" "depth \<le> b_maxDepth body"
    "\<forall>n. 0 < n \<and> n \<le> i \<and> is_brace (s ! (n - 1)) \<longrightarrow> 0 < brace_depth (take n s)"
  shows "\<exists>d b. brace_loop s i depth body = Some (d, b)
      \<and> b_index b = b_index body \<and> b_name b = b_name body \<and> b_type b = b_type body
      \<and> b_paramCount b = b_paramCount body \<and> b_params b = b_params body
      \<and> (d = 0 \<and> b_code b \<noteq> [] \<longrightarrow>
           (\<exists>n. first_return s n \<and> b_code b = take n s \<and> 1 \<le> b_maxDepth b))"
  using assms
proof (induction "length s - i" arbitrary: i depth body rule: less_induct)
  case less
  note i = less.prems(1) and code = less.prems(2) and depth = less.prems(3)
    and pos = less.prems(4) and mx = less.prems(5) and earlier = less.prems(6)
  have depth0: "0 \<le> depth" using pos depth by (auto simp: brace_depth_def)
  show ?case
  proof (cases "dropWhile (\<lambda>c. \<not> is_brace c) (drop i s)")
    case Nil
    then have "brace_loop s i depth body = Some (depth, body)"
      using i by (subst brace_loop.simps) (simp add: braceRegex_exec del: dropWhile_eq_Nil_conv)
    moreover have "\<not> (depth = 0 \<and> b_code body \<noteq> [])" using pos code by auto
    ultimately show ?thesis by blast
  next
    case (Cons c cs)
    define j where "j = i + length (takeWhile (\<lambda>c. \<not> is_brace c) (drop i s))"
    note st = brace_step[OF i Cons, folded j_def]
    define depth1 where "depth1 = depth + brace_depth [c]"
    define body2 where
      "body2 = (if depth1 > b_maxDepth body
                then body\<lparr>b_code := take (Suc j) s, b_maxDepth := depth1\<rparr>
                else body\<lparr>b_code := take (Suc j) s\<rparr>)"
    have ex: "exec braceRegex s i = Some \<lparr>mt_index = i, mt_end = Suc j, mt_caps = []\<rparr>"
      using i Cons by (simp add: braceRegex_exec j_def)
    have d1: "depth1 = (if c = CHR ''{'' then depth + 1 else depth - 1)"
      using st(3) by (auto simp: depth1_def brace_depth_single is_brace_def)
    let ?mt = "\<lparr>mt_index = i, mt_end = Suc j, mt_caps = []\<rparr>"
    have mstr: "matched s ?mt = takeWhile (\<lambda>c. \<not> is_brace c) (drop i s) @ [c]"
      by (simp add: matched_def st(5))
    have lc: "js_charAt (matched s ?mt) (int (length (matched s ?mt)) - 1) = [c]"
      unfolding mstr by (simp add: js_charAt_def nth_append)
    have dd: "(if c = CHR ''{'' then depth + 1 else if c = CHR ''}'' then depth - 1 else depth)
        = depth1"
      using st(3) by (auto simp: d1 is_brace_def)
    have cc: "b_code body @ matched s ?mt = take (Suc j) s"
      unfolding mstr code st(4) by simp
    have ji: "\<not> Suc j \<le> i" by (simp add: j_def)
    have step: "brace_loop s i depth body =
        (if depth1 \<le> 0 then Some (depth1, body2) else brace_loop s (Suc j) depth1 body2)"
    proof (cases "c = CHR ''{''")
      case True
      then have "depth1 = depth + 1" by (simp add: d1)
      then show ?thesis
        by (subst brace_loop.simps) (simp add: ex lc cc ji Let_def body2_def True)
    next
      case False
      then have c2: "c = CHR ''}''" using st(3) by (simp add: is_brace_def)
      then have "depth1 = depth - 1" by (simp add: d1)
      then show ?thesis
        by (subst brace_loop.simps) (simp add: ex lc cc ji Let_def body2_def c2)
    qed
    have d1eq: "depth1 = brace_depth (take (Suc j) s)"
      using st(6) depth by (simp add: depth1_def)
    have b2: "b_code body2 = take (Suc j) s" "depth1 \<le> b_maxDepth body2"
      "b_maxDepth body \<le> b_maxDepth body2"
      "b_index body2 = b_index body" "b_name body2 = b_name body" "b_type body2 = b_type body"
      "b_paramCount body2 = b_paramCount body" "b_params body2 = b_params body"
      by (auto simp: body2_def)
    have upto: "0 < brace_depth (take m s)"
      if "0 < m" "m \<le> j" "is_brace (s ! (m - 1))" for m
      using that earlier st(7) by (cases "m \<le> i") auto
    show ?thesis
    proof (cases "depth1 \<le> 0")
      case True
      have "first_return s (Suc j) \<and> 1 \<le> b_maxDepth body2" if z: "depth1 = 0"
      proof -
        have "c \<noteq> CHR ''{''" using z d1 depth0 by auto
        then have "depth = 1" using z d1 by auto
        then have "1 \<le> b_maxDepth body2" using mx b2(3) by simp
        moreover have "first_return s (Suc j)"
          unfolding first_return_iff using st(1,2,3) d1eq z upto by auto
        ultimately show ?thesis by simp
      qed
      then show ?thesis using step True b2 by auto
    next
      case False
      have "\<exists>d b. brace_loop s (Suc j) depth1 body2 = Some (d, b)
        \<and> b_index b = b_index body2 \<and> b_name b = b_name body2 \<and> b_type b = b_type body2
        \<and> b_paramCount b = b_paramCount body2 \<and> b_params b = b_params body2
        \<and> (d = 0 \<and> b_code b \<noteq> [] \<longrightarrow>
           (\<exists>n. first_return s n \<and> b_code b = take n s \<and> 1 \<le> b_maxDepth b))"
      proof (rule less.hyps)
        show "length s - Suc j < length s - i" using st(1) by (simp add: j_def)
        show "Suc j \<le> length s" using st(1) by simp
        show "b_code body2 = take (Suc j) s" by (rule b2)
        show "depth1 = brace_depth (take (Suc j) s)" by (rule d1eq)
        show "Suc j = 0 \<or> 0 < depth1" using False by simp
        show "depth1 \<le> b_maxDepth body2" by (rule b2)
        show "\<forall>n. 0 < n \<and> n \<le> Suc j \<and> is_brace (s ! (n - 1)) \<longrightarrow> 0 < brace_depth (take n s)"
        proof (intro allI impI)
          fix n assume n: "0 < n \<and> n \<le> Suc j \<and> is_brace (s ! (n - 1))"
          show "0 < brace_depth (take n s)"
          proof (cases "n = Suc j")
            case True
            then show ?thesis using False d1eq by simp
          next
            case F: False
            then show ?thesis using n upto[of n] by simp
          qed
        qed
      qed
      then show ?thesis using step False b2 by auto
    qed
  qed
qed

lemma first_return_take:
  assumes "first_return s n"
  shows "first_return (take n s) (length (take n s))"
proof -
  from assms have n: "0 < n" "n \<le> length s" by (auto simp: first_return_iff)
  then have l: "length (take n s) = n" by simp
  have t: "take m (take n s) = take m s" if "m \<le> n" for m using that by (simp add: min_def)
  have e: "take n s ! (m - 1) = s ! (m - 1)" if "0 < m" "m \<le> n" for m using that by simp
  show ?thesis
    unfolding l first_return_iff using assms n t e
    by (auto simp: first_return_iff)
qed

lemma execAll_bounds:
  "execAll r s i = Some ms \<Longrightarrow>
     \<forall>mt\<in>set ms. i \<le> mt_index mt \<and> mt_index mt \<le> mt_end mt \<and> mt_end mt \<le> length s"
proof (induction r s i arbitrary: ms rule: execAll.induct)
  case (1 r s lastIndex)
  show ?case
  proof (cases "exec r s lastIndex")
    case None
    then show ?thesis using "1.prems" by (subst (asm) execAll.simps) simp
  next
    case (Some mt)
    from "1.prems" Some have gt: "\<not> mt_end mt \<le> lastIndex"
      by (subst (asm) execAll.simps) (auto split: if_splits)
    from "1.prems" Some gt obtain ms' where ms': "execAll r s (mt_end mt) = Some ms'"
      "ms = mt # ms'"
      by (subst (asm) execAll.simps) auto
    from "1.IH"[OF Some gt ms'(1)] exec_bounds[OF Some] gt ms'(2) show ?thesis
      by auto
  qed
qed

lemma js_substring_from_drop:
  "0 \<le> i \<Longrightarrow> i \<le> int (length s) \<Longrightarrow> js_substring_from s i = drop (nat i) s"
  by (simp add: js_substring_from_def js_substring_def Let_def min_def max_def)

text \<open>What body extraction guarantees of a body it returns.\<close>

definition extracted :: "string \<Rightarrow> body \<Rightarrow> bool" where
  "extracted text b \<longleftrightarrow>
     0 \<le> b_index b
     \<and> (\<exists>n. first_return (drop (nat (b_index b)) text) n
            \<and> b_code b = take n (drop (nat (b_index b)) text))
     \<and> 1 \<le> b_maxDepth b"

lemma bodies_loop_spec:
  assumes "\<forall>c\<in>set decs. b_code c = [] \<and> b_maxDepth c = 0 \<and> 0 \<le> b_index c
             \<and> b_index c \<le> int (length text)"
  shows "\<exists>bs. bodies_loop text decs = Some bs
     \<and> (\<forall>b\<in>set bs. extracted text b
           \<and> (\<exists>c\<in>set decs. b_index b = b_index c \<and> b_name b = b_name c \<and> b_type b = b_type c))"
  using assms
proof (induction decs)
  case Nil
  show ?case by simp
next
  case (Cons c decs)
  let ?s = "drop (nat (b_index c)) text"
  from Cons.prems have c: "b_code c = []" "b_maxDepth c = 0" "0 \<le> b_index c"
    "b_index c \<le> int (length text)" by auto
  have sub: "js_substring_from text (b_index c) = ?s"
    using c by (simp add: js_substring_from_drop)
  have "\<exists>d b. brace_loop ?s 0 0 c = Some (d, b)
      \<and> b_index b = b_index c \<and> b_name b = b_name c \<and> b_type b = b_type c
      \<and> b_paramCount b = b_paramCount c \<and> b_params b = b_params c
      \<and> (d = 0 \<and> b_code b \<noteq> [] \<longrightarrow>
           (\<exists>n. first_return ?s n \<and> b_code b = take n ?s \<and> 1 \<le> b_maxDepth b))"
    using c by (intro brace_loop_spec) (auto simp: brace_depth_def)
  then obtain d b where db: "brace_loop ?s 0 0 c = Some (d, b)"
    "b_index b = b_index c" "b_name b = b_name c" "b_type b = b_type c"
    "d = 0 \<and> b_code b \<noteq> [] \<longrightarrow>
           (\<exists>n. first_return ?s n \<and> b_code b = take n ?s \<and> 1 \<le> b_maxDepth b)"
    by blast
  from Cons obtain bs where bs: "bodies_loop text decs = Some bs"
    "\<forall>b\<in>set bs. extracted text b
           \<and> (\<exists>c\<in>set decs. b_index b = b_index c \<and> b_name b = b_name c \<and> b_type b = b_type c)"
    by auto
  have r: "bodies_loop text (c # decs) =
      Some (if d = 0 \<and> b_code b \<noteq> [] then b # bs else bs)"
    using db(1) bs(1) sub by simp
  have "extracted text b" if "d = 0 \<and> b_code b \<noteq> []"
    using that db c(3) by (auto simp: extracted_def)
  then show ?case using r bs(2) db(2,3,4) by auto
qed

lemma extractBodies_spec:
  "\<exists>bodies. extractBodies text type = Some bodies \<and> (\<forall>b\<in>set bodies. extracted text b)"
proof -
  obtain ms where ms: "execAll (searchRegex type) text 0 = Some ms"
    using execAll_returns[OF minlen_searchRegex] by blast
  have "\<forall>c\<in>set (bodyDecs text type ms). b_code c = [] \<and> b_maxDepth c = 0 \<and> 0 \<le> b_index c
             \<and> b_index c \<le> int (length text)"
    using execAll_bounds[OF ms] by (fastforce simp: bodyDecs_def)
  from bodies_loop_spec[OF this] show ?thesis
    using ms by (auto simp: extractBodies_def)
qed

text \<open>The depth never returns to \<open>0\<close> in \<open>s\<close>: no prefix that ends with a brace has
  depth \<open>0\<close>.\<close>

definition never_returns :: "string \<Rightarrow> bool" where
  "never_returns s \<longleftrightarrow>
     list_all (\<lambda>n. is_brace (s ! (n - 1)) \<longrightarrow> brace_depth (take n s) \<noteq> 0)
       [1..<Suc (length s)]"

lemma never_returns_iff:
  "never_returns s \<longleftrightarrow>
     (\<forall>n. 0 < n \<and> n \<le> length s \<and> is_brace (s ! (n - 1)) \<longrightarrow> brace_depth (take n s) \<noteq> 0)"
  unfolding never_returns_def list_all_iff by (auto simp: Suc_le_eq less_Suc_eq_le)

definition nestedFunction :: string where
  "nestedFunction = ''func f() { if (x) { y() } }''"

definition truncatedFunction :: string where
  "truncatedFunction = ''func g() { if (x) {''"

text \<open>
  C1. For every text and every declaration keyword, body extraction returns, and every
  body it returns starts at a candidate offset of the text, is the text from there up to
  the first brace at which the depth is back at exactly \<open>0\<close> (so the depth of the body is
  \<open>0\<close> at its end and positive at every brace before), and has a maximum depth of at
  least \<open>1\<close>. A candidate from whose offset the depth never returns to \<open>0\<close> yields no
  body; extraction returns nothing but the bodies, so nothing is reported for it. The
  function of \<open>func f() { if (x) { y() } }\<close> has maximum depth \<open>2\<close>, and the truncated
  \<open>func g() { if (x) {\<close> yields no body.
\<close>

theorem balanced_extraction:
  "(\<exists>bodies. extractBodies text type = Some bodies
      \<and> (\<forall>b\<in>set bodies.
            0 \<le> b_index b
          \<and> (\<exists>n. b_code b = take n (drop (nat (b_index b)) text))
          \<and> first_return (b_code b) (length (b_code b))
          \<and> brace_depth (b_code b) = 0
          \<and> 1 \<le> b_maxDepth b)
      \<and> (\<forall>i. never_returns (drop i text) \<longrightarrow> (\<forall>b\<in>set bodies. b_index b \<noteq> int i)))
   \<and> extractFunctions nestedFunction =
       Some [\<lparr>b_code = nestedFunction, b_name = ''f'', b_index = 0, b_type = ''func'',
               b_maxDepth = 2, b_paramCount = Undefined, b_params = Undefined\<rparr>]
   \<and> extractFunctions truncatedFunction = Some []"
proof -
  obtain bodies where bodies: "extractBodies text type = Some bodies"
    "\<forall>b\<in>set bodies. extracted text b"
    using extractBodies_spec by blast
  have valid: "0 \<le> b_index b
          \<and> (\<exists>n. b_code b = take n (drop (nat (b_index b)) text))
          \<and> first_return (b_code b) (length (b_code b))
          \<and> brace_depth (b_code b) = 0
          \<and> 1 \<le> b_maxDepth b" if "b \<in> set bodies" for b
  proof -
    from that bodies(2) obtain n where n: "0 \<le> b_index b"
      "first_return (drop (nat (b_index b)) text) n"
      "b_code b = take n (drop (nat (b_index b)) text)" "1 \<le> b_maxDepth b"
      by (auto simp: extracted_def)
    have "first_return (b_code b) (length (b_code b))"
      unfolding n(3) using n(2) by (rule first_return_take)
    moreover have "brace_depth (b_code b) = 0"
      unfolding n(3) using n(2) by (simp add: first_return_iff)
    ultimately show ?thesis using n by blast
  qed
  have discard: "b_index b \<noteq> int i" if "never_returns (drop i text)" "b \<in> set bodies" for i b
  proof
    assume "b_index b = int i"
    with that(2) bodies(2) obtain n where "first_return (drop i text) n"
      by (auto simp: extracted_def)
    then show False using that(1) by (auto simp: first_return_iff never_returns_iff)
  qed
  have e1: "extractFunctions nestedFunction =
       Some [\<lparr>b_code = nestedFunction, b_name = ''f'', b_index = 0, b_type = ''func'',
               b_maxDepth = 2, b_paramCount = Undefined, b_params = Undefined\<rparr>]"
    by code_simp
  have e2: "extractFunctions truncatedFunction = Some []" by code_simp
  from bodies(1) valid discard e1 e2 show ?thesis by blast
qed

theorem balanced_extraction_witness:
  "never_returns (drop 0 truncatedFunction)
   \<and> (\<exists>bodies. extractBodies truncatedFunction ''func'' = Some bodies
         \<and> list_all (\<lambda>b. b_index b \<noteq> 0) bodies)
   \<and> (\<exists>bodies. extractBodies nestedFunction ''func'' = Some bodies \<and> bodies \<noteq> []
         \<and> list_all (\<lambda>b. brace_depth (b_code b) = 0 \<and> 1 \<le> b_maxDepth b) bodies)"
proof -
  have a: "never_returns (drop 0 truncatedFunction)" by code_simp
  have b: "extractBodies nestedFunction ''func'' \<noteq> Some []" by code_simp
  from balanced_extraction[of truncatedFunction "''func''"] a
  have 1: "\<exists>bodies. extractBodies truncatedFunction ''func'' = Some bodies
         \<and> list_all (\<lambda>b. b_index b \<noteq> 0) bodies"
    unfolding list_all_iff by (metis of_nat_0)
  from balanced_extraction[of nestedFunction "''func''"] b
  have 2: "\<exists>bodies. extractBodies nestedFunction ''func'' = Some bodies \<and> bodies \<noteq> []
         \<and> list_all (\<lambda>b. brace_depth (b_code b) = 0 \<and> 1 \<le> b_maxDepth b) bodies"
    unfolding list_all_iff by blast
  from a 1 2 show ?thesis by blast
qed

section \<open>The capture groups of a match\<close>

text \<open>\<open>sets_some G r\<close>: every match of \<open>r\<close> sets at least one of the groups in \<open>G\<close>.
  \<open>groups_at_least L r\<close>: every group \<open>g\<close> of \<open>r\<close> captures at least \<open>L g\<close>
  characters.\<close>

primrec sets_some :: "nat set \<Rightarrow> regex \<Rightarrow> bool" where
  "sets_some G Eps = False"
| "sets_some G (Cls P) = False"
| "sets_some G (Seq a b) = (sets_some G a \<or> sets_some G b)"
| "sets_some G (Alt a b) = (sets_some G a \<and> sets_some G b)"
| "sets_some G (Rep greedy mn mx a) = (0 < mn \<and> mx \<noteq> Some 0 \<and> sets_some G a)"
| "sets_some G (Grp g a) = (g \<in> G \<or> sets_some G a)"
| "sets_some G Bol = False"
| "sets_some G Eol = False"
| "sets_some G WordB = False"

primrec groups_at_least :: "(nat \<Rightarrow> nat) \<Rightarrow> regex \<Rightarrow> bool" where
  "groups_at_least L Eps = True"
| "groups_at_least L (Cls P) = True"
| "groups_at_least L (Seq a b) = (groups_at_least L a \<and> groups_at_least L b)"
| "groups_at_least L (Alt a b) = (groups_at_least L a \<and> groups_at_least L b)"
| "groups_at_least L (Rep greedy mn mx a) = groups_at_least L a"
| "groups_at_least L (Grp g a) = (L g \<le> minlen a \<and> groups_at_least L a)"
| "groups_at_least L Bol = True"
| "groups_at_least L Eol = True"
| "groups_at_least L WordB = True"

definition caps_ok :: "(nat \<Rightarrow> nat) \<Rightarrow> nat \<Rightarrow> (nat \<times> nat \<times> nat) list \<Rightarrow> bool" where
  "caps_ok L N caps \<longleftrightarrow> (\<forall>(g, a, b)\<in>set caps. a + L g \<le> b \<and> b \<le> N)"

definition cap_keys :: "(nat \<times> nat \<times> nat) list \<Rightarrow> nat set" where
  "cap_keys caps = fst ` set caps"

lemma cap_keys_Cons: "cap_keys ((g, a, b) # caps) = insert g (cap_keys caps)"
  by (simp add: cap_keys_def)

definition text_end :: "mstate \<Rightarrow> nat" where
  "text_end st = m_at st + length (m_rest st)"

definition records :: "(nat \<Rightarrow> nat) \<Rightarrow> matcher \<Rightarrow> (nat set \<Rightarrow> bool) \<Rightarrow> nat \<Rightarrow> bool" where
  "records L f G l \<longleftrightarrow>
     (\<forall>k st res. f k st = Some res \<longrightarrow> caps_ok L (text_end st) (m_caps st) \<longrightarrow>
        (\<exists>st'. advances st st' \<and> m_at st + l \<le> m_at st'
           \<and> caps_ok L (text_end st) (m_caps st')
           \<and> cap_keys (m_caps st) \<subseteq> cap_keys (m_caps st')
           \<and> (\<forall>X. G X \<longrightarrow> cap_keys (m_caps st') \<inter> X \<noteq> {})
           \<and> k st' = Some res))"

lemma recordsD:
  "records L f G l \<Longrightarrow> f k st = Some res \<Longrightarrow> caps_ok L (text_end st) (m_caps st) \<Longrightarrow>
     \<exists>st'. advances st st' \<and> m_at st + l \<le> m_at st'
           \<and> caps_ok L (text_end st) (m_caps st')
           \<and> cap_keys (m_caps st) \<subseteq> cap_keys (m_caps st')
           \<and> (\<forall>X. G X \<longrightarrow> cap_keys (m_caps st') \<inter> X \<noteq> {})
           \<and> k st' = Some res"
  unfolding records_def by blast

lemma text_end_advances: "advances st st' \<Longrightarrow> text_end st' = text_end st"
  by (simp add: text_end_def advances_len)

lemma advances_end: "advances st st' \<Longrightarrow> m_at st' \<le> text_end st"
  using advances_len[of st st'] by (simp add: text_end_def)

lemma rep_records:
  assumes f: "records L f G l"
  shows "rep n f greedy mn mx k st = Some res \<Longrightarrow> mn \<le> n \<Longrightarrow>
      caps_ok L (text_end st) (m_caps st) \<Longrightarrow>
      \<exists>st'. advances st st'
        \<and> m_at st + (case mx of None \<Rightarrow> mn | Some j \<Rightarrow> min mn j) * l \<le> m_at st'
        \<and> caps_ok L (text_end st) (m_caps st')
        \<and> cap_keys (m_caps st) \<subseteq> cap_keys (m_caps st')
       
          \<and> (\<forall>X. 0 < mn \<and> mx \<noteq> Some 0 \<and> G X \<longrightarrow> cap_keys (m_caps st') \<inter> X \<noteq> {})
        \<and> k st' = Some res"
proof (induction n arbitrary: mn mx st)
  case 0
  then show ?case by (auto intro: advances_refl split: option.splits)
next
  case (Suc n)
  let ?mx' = "map_option (\<lambda>x. x - 1) mx"
  let ?d = "\<lambda>st'. if mn = 0 \<and> m_at st' = m_at st then None
                 else rep n f greedy (mn - 1) ?mx' k st'"
  show ?case
  proof (cases "mx = Some 0")
    case True
    with Suc.prems show ?thesis by (auto intro: advances_refl)
  next
    case mx: False
    have viaf: "\<exists>st'. advances st st'
        \<and> m_at st + (case mx of None \<Rightarrow> mn | Some j \<Rightarrow> min mn j) * l \<le> m_at st'
        \<and> caps_ok L (text_end st) (m_caps st')
        \<and> cap_keys (m_caps st) \<subseteq> cap_keys (m_caps st')
        \<and> (\<forall>X. G X \<longrightarrow> cap_keys (m_caps st') \<inter> X \<noteq> {})
        \<and> k st' = Some res" if "f ?d st = Some res"
    proof -
      from recordsD[OF f that Suc.prems(3)] obtain st1 where st1: "advances st st1"
        "m_at st + l \<le> m_at st1" "caps_ok L (text_end st) (m_caps st1)"
        "cap_keys (m_caps st) \<subseteq> cap_keys (m_caps st1)
          \<and> (\<forall>X. G X \<longrightarrow> cap_keys (m_caps st1) \<inter> X \<noteq> {})"
        "?d st1 = Some res" by blast
      then have r: "rep n f greedy (mn - 1) ?mx' k st1 = Some res"
        by (auto split: if_splits)
      have le: "mn - 1 \<le> n" using Suc.prems by simp
      have ok1: "caps_ok L (text_end st1) (m_caps st1)"
        using st1(1,3) by (simp add: text_end_advances)
      from Suc.IH[OF r le ok1] obtain st' where st': "advances st1 st'"
        "m_at st1 + (case ?mx' of None \<Rightarrow> mn - 1 | Some j \<Rightarrow> min (mn - 1) j) * l \<le> m_at st'"
        "caps_ok L (text_end st1) (m_caps st')"
        "cap_keys (m_caps st1) \<subseteq> cap_keys (m_caps st')"
        "k st' = Some res" by blast
      have "(case mx of None \<Rightarrow> mn | Some j \<Rightarrow> min mn j) * l
          \<le> l + (case ?mx' of None \<Rightarrow> mn - 1 | Some j \<Rightarrow> min (mn - 1) j) * l"
        using mx by (cases mx; cases mn) (auto simp: min_def pred_mult_le)
      then have "m_at st + (case mx of None \<Rightarrow> mn | Some j \<Rightarrow> min mn j) * l \<le> m_at st'"
        using st1(2) st'(2) by linarith
      moreover have "caps_ok L (text_end st) (m_caps st')"
        using st'(3) st1(1) by (simp add: text_end_advances)
      moreover have "cap_keys (m_caps st) \<subseteq> cap_keys (m_caps st')
        \<and> (\<forall>X. G X \<longrightarrow> cap_keys (m_caps st') \<inter> X \<noteq> {})"
        using st1(4) st'(4) by blast
      ultimately show ?thesis using advances_trans[OF st1(1) st'(1)] st'(5) by blast
    qed
    show ?thesis
    proof (cases "0 < mn")
      case True
      then have "f ?d st = Some res" using Suc.prems mx by (simp add: Let_def)
      from viaf[OF this] show ?thesis by auto
    next
      case False
      then have "f ?d st = Some res \<or> k st = Some res"
        using Suc.prems mx by (auto simp: Let_def split: if_splits option.splits)
      then show ?thesis
      proof
        assume "f ?d st = Some res"
        from viaf[OF this] show ?thesis using False by auto
      next
        assume "k st = Some res"
        then show ?thesis using False Suc.prems(3)
          by (intro exI[of _ st]) (auto intro: advances_refl split: option.splits)
      qed
    qed
  qed
qed

lemma matcher_records:
  "groups_at_least L r \<Longrightarrow> records L (matcher_of r) (\<lambda>X. sets_some X r) (minlen r)"
proof (induction r)
  case Eps
  show ?case by (auto simp: records_def intro: advances_refl)
next
  case (Cls P)
  show ?case unfolding records_def
  proof (intro allI impI)
    fix k st res
    assume a: "matcher_of (Cls P) k st = Some res"
      and ok: "caps_ok L (text_end st) (m_caps st)"
    then obtain c cs where c: "m_rest st = c # cs" "P c"
      "k (st\<lparr>m_at := m_at st + 1, m_prev := Some c, m_rest := cs\<rparr>) = Some res"
      by (auto split: list.splits if_splits)
    have "advances st (st\<lparr>m_at := m_at st + 1, m_prev := Some c, m_rest := cs\<rparr>)"
      unfolding advances_def using c(1) by (intro exI[of _ "[c]"]) simp
    then show "\<exists>st'. advances st st' \<and> m_at st + minlen (Cls P) \<le> m_at st'
           \<and> caps_ok L (text_end st) (m_caps st')
           \<and> cap_keys (m_caps st) \<subseteq> cap_keys (m_caps st')
           \<and> (\<forall>X. sets_some X (Cls P) \<longrightarrow> cap_keys (m_caps st') \<inter> X \<noteq> {})
           \<and> k st' = Some res"
      using c(3) ok
      by (intro exI[of _ "st\<lparr>m_at := m_at st + 1, m_prev := Some c, m_rest := cs\<rparr>"]) simp
  qed
next
  case (Seq a b)
  then have ra: "records L (matcher_of a) (\<lambda>X. sets_some X a) (minlen a)"
    and rb: "records L (matcher_of b) (\<lambda>X. sets_some X b) (minlen b)" by auto
  show ?case unfolding records_def
  proof (intro allI impI)
    fix k st res
    assume "matcher_of (Seq a b) k st = Some res"
      and ok: "caps_ok L (text_end st) (m_caps st)"
    then have "matcher_of a (matcher_of b k) st = Some res" by simp
    from recordsD[OF ra this ok] obtain st1 where st1: "advances st st1"
      "m_at st + minlen a \<le> m_at st1" "caps_ok L (text_end st) (m_caps st1)"
      "cap_keys (m_caps st) \<subseteq> cap_keys (m_caps st1)
        \<and> (\<forall>X. sets_some X a \<longrightarrow> cap_keys (m_caps st1) \<inter> X \<noteq> {})"
      "matcher_of b k st1 = Some res" by blast
    have ok1: "caps_ok L (text_end st1) (m_caps st1)"
      using st1(1,3) by (simp add: text_end_advances)
    from recordsD[OF rb st1(5) ok1] obtain st2 where st2: "advances st1 st2"
      "m_at st1 + minlen b \<le> m_at st2" "caps_ok L (text_end st1) (m_caps st2)"
      "cap_keys (m_caps st1) \<subseteq> cap_keys (m_caps st2)
        \<and> (\<forall>X. sets_some X b \<longrightarrow> cap_keys (m_caps st2) \<inter> X \<noteq> {})"
      "k st2 = Some res" by blast
    have "caps_ok L (text_end st) (m_caps st2)"
      using st2(3) st1(1) by (simp add: text_end_advances)
    moreover have "cap_keys (m_caps st) \<subseteq> cap_keys (m_caps st2)
      \<and> (\<forall>X. sets_some X (Seq a b) \<longrightarrow> cap_keys (m_caps st2) \<inter> X \<noteq> {})"
      using st1(4) st2(4) by (simp, blast)
    ultimately show "\<exists>st'. advances st st' \<and> m_at st + minlen (Seq a b) \<le> m_at st'
           \<and> caps_ok L (text_end st) (m_caps st')
           \<and> cap_keys (m_caps st) \<subseteq> cap_keys (m_caps st')
           \<and> (\<forall>X. sets_some X (Seq a b) \<longrightarrow> cap_keys (m_caps st') \<inter> X \<noteq> {})
           \<and> k st' = Some res"
      using advances_trans[OF st1(1) st2(1)] st1(2) st2(2) st2(5)
      by (intro exI[of _ st2]) simp
  qed
next
  case (Alt a b)
  then have ra: "records L (matcher_of a) (\<lambda>X. sets_some X a) (minlen a)"
    and rb: "records L (matcher_of b) (\<lambda>X. sets_some X b) (minlen b)" by auto
  show ?case unfolding records_def
  proof (intro allI impI)
    fix k st res
    assume "matcher_of (Alt a b) k st = Some res"
      and ok: "caps_ok L (text_end st) (m_caps st)"
    then have "matcher_of a k st = Some res \<or> matcher_of b k st = Some res"
      by (auto split: option.splits)
    then show "\<exists>st'. advances st st' \<and> m_at st + minlen (Alt a b) \<le> m_at st'
           \<and> caps_ok L (text_end st) (m_caps st')
           \<and> cap_keys (m_caps st) \<subseteq> cap_keys (m_caps st')
           \<and> (\<forall>X. sets_some X (Alt a b) \<longrightarrow> cap_keys (m_caps st') \<inter> X \<noteq> {})
           \<and> k st' = Some res"
    proof
      assume "matcher_of a k st = Some res"
      from recordsD[OF ra this ok] obtain st' where "advances st st'"
        "m_at st + minlen a \<le> m_at st'" "caps_ok L (text_end st) (m_caps st')"
        "cap_keys (m_caps st) \<subseteq> cap_keys (m_caps st')
          \<and> (\<forall>X. sets_some X a \<longrightarrow> cap_keys (m_caps st') \<inter> X \<noteq> {})"
        "k st' = Some res" by blast
      then show ?thesis by (intro exI[of _ st']) auto
    next
      assume "matcher_of b k st = Some res"
      from recordsD[OF rb this ok] obtain st' where "advances st st'"
        "m_at st + minlen b \<le> m_at st'" "caps_ok L (text_end st) (m_caps st')"
        "cap_keys (m_caps st) \<subseteq> cap_keys (m_caps st')
          \<and> (\<forall>X. sets_some X b \<longrightarrow> cap_keys (m_caps st') \<inter> X \<noteq> {})"
        "k st' = Some res" by blast
      then show ?thesis by (intro exI[of _ st']) auto
    qed
  qed
next
  case (Rep greedy mn mx a)
  then have ra: "records L (matcher_of a) (\<lambda>X. sets_some X a) (minlen a)" by auto
  show ?case unfolding records_def
  proof (intro allI impI)
    fix k st res
    assume "matcher_of (Rep greedy mn mx a) k st = Some res"
      and ok: "caps_ok L (text_end st) (m_caps st)"
    then have "rep (mn + length (m_rest st)) (matcher_of a) greedy mn mx k st = Some res"
      by simp
    from rep_records[OF ra this _ ok]
    show "\<exists>st'. advances st st' \<and> m_at st + minlen (Rep greedy mn mx a) \<le> m_at st'
           \<and> caps_ok L (text_end st) (m_caps st')
           \<and> cap_keys (m_caps st) \<subseteq> cap_keys (m_caps st')
           \<and> (\<forall>X. sets_some X (Rep greedy mn mx a) \<longrightarrow> cap_keys (m_caps st') \<inter> X \<noteq> {})
           \<and> k st' = Some res"
      by simp
  qed
next
  case (Grp g a)
  then have ra: "records L (matcher_of a) (\<lambda>X. sets_some X a) (minlen a)"
    and lg: "L g \<le> minlen a" by auto
  show ?case unfolding records_def
  proof (intro allI impI)
    fix k st res
    assume "matcher_of (Grp g a) k st = Some res"
      and ok: "caps_ok L (text_end st) (m_caps st)"
    then have "matcher_of a (\<lambda>st'. k (st'\<lparr>m_caps := (g, m_at st, m_at st') # m_caps st'\<rparr>)) st
        = Some res" by simp
    from recordsD[OF ra this ok] obtain st1 where st1: "advances st st1"
      "m_at st + minlen a \<le> m_at st1" "caps_ok L (text_end st) (m_caps st1)"
      "cap_keys (m_caps st) \<subseteq> cap_keys (m_caps st1)
        \<and> (\<forall>X. sets_some X a \<longrightarrow> cap_keys (m_caps st1) \<inter> X \<noteq> {})"
      "k (st1\<lparr>m_caps := (g, m_at st, m_at st1) # m_caps st1\<rparr>) = Some res"
      by blast
    let ?st' = "st1\<lparr>m_caps := (g, m_at st, m_at st1) # m_caps st1\<rparr>"
    have "caps_ok L (text_end st) (m_caps ?st')"
      using st1(2,3) lg advances_end[OF st1(1)] by (auto simp: caps_ok_def)
    moreover have "cap_keys (m_caps st) \<subseteq> cap_keys (m_caps ?st')
      \<and> (\<forall>X. sets_some X (Grp g a) \<longrightarrow> cap_keys (m_caps ?st') \<inter> X \<noteq> {})"
      using st1(4) by (simp add: cap_keys_Cons, blast)
    ultimately show "\<exists>st'. advances st st' \<and> m_at st + minlen (Grp g a) \<le> m_at st'
           \<and> caps_ok L (text_end st) (m_caps st')
           \<and> cap_keys (m_caps st) \<subseteq> cap_keys (m_caps st')
           \<and> (\<forall>X. sets_some X (Grp g a) \<longrightarrow> cap_keys (m_caps st') \<inter> X \<noteq> {})
           \<and> k st' = Some res"
      using st1(1,2,5) by (intro exI[of _ ?st']) (auto intro: advances_caps)
  qed
next
  case Bol
  show ?case by (auto simp: records_def intro: advances_refl split: if_splits)
next
  case Eol
  show ?case by (auto simp: records_def intro: advances_refl split: if_splits)
next
  case WordB
  show ?case by (auto simp: records_def intro: advances_refl split: if_splits)
qed

lemma exec_scan_records:
  "exec_scan r i prev cs = Some mt \<Longrightarrow> groups_at_least L r \<Longrightarrow>
     caps_ok L (i + length cs) (mt_caps mt)
    
       \<and> (\<forall>X. sets_some X r \<longrightarrow> cap_keys (mt_caps mt) \<inter> X \<noteq> {})"
proof (induction r i prev cs rule: exec_scan.induct)
  case (1 r i prev)
  let ?st = "\<lparr>m_at = i, m_prev = prev, m_rest = [], m_caps = []\<rparr>"
  from 1 obtain st where st: "matcher_of r Some ?st = Some st"
    "mt = \<lparr>mt_index = i, mt_end = m_at st, mt_caps = m_caps st\<rparr>"
    by (auto split: option.splits)
  have ok: "caps_ok L (text_end ?st) (m_caps ?st)" by (simp add: caps_ok_def)
  from recordsD[OF matcher_records[OF "1.prems"(2)] st(1) ok] show ?case
    using st(2) by (auto simp: text_end_def)
next
  case (2 r i prev c cs)
  let ?st = "\<lparr>m_at = i, m_prev = prev, m_rest = c # cs, m_caps = []\<rparr>"
  show ?case
  proof (cases "matcher_of r Some ?st")
    case None
    with 2 show ?thesis by auto
  next
    case (Some st)
    with 2 have mt: "mt = \<lparr>mt_index = i, mt_end = m_at st, mt_caps = m_caps st\<rparr>" by simp
    have ok: "caps_ok L (text_end ?st) (m_caps ?st)" by (simp add: caps_ok_def)
    from recordsD[OF matcher_records[OF "2.prems"(2)] Some ok] show ?thesis
      using mt by (auto simp: text_end_def)
  qed
qed

lemma exec_records:
  assumes "groups_at_least L r" "exec r s i = Some mt"
  shows "caps_ok L (length s) (mt_caps mt)"
    and "sets_some X r \<Longrightarrow> cap_keys (mt_caps mt) \<inter> X \<noteq> {}"
  using assms exec_scan_records[of r i _ "drop i s" mt L]
  by (auto simp: exec_def split: if_splits)

lemma execAll_records:
  "groups_at_least L r \<Longrightarrow> execAll r s i = Some ms \<Longrightarrow> mt \<in> set ms \<Longrightarrow>
     caps_ok L (length s) (mt_caps mt)
    
       \<and> (\<forall>X. sets_some X r \<longrightarrow> cap_keys (mt_caps mt) \<inter> X \<noteq> {})"
proof (induction r s i arbitrary: ms rule: execAll.induct)
  case (1 r s lastIndex)
  show ?case
  proof (cases "exec r s lastIndex")
    case None
    then show ?thesis using "1.prems"(2,3) by (subst (asm) execAll.simps) simp
  next
    case (Some m0)
    from "1.prems"(2) Some have gt: "\<not> mt_end m0 \<le> lastIndex"
      by (subst (asm) execAll.simps) (auto split: if_splits)
    from "1.prems"(2) Some gt obtain ms' where ms': "execAll r s (mt_end m0) = Some ms'"
      "ms = m0 # ms'"
      by (subst (asm) execAll.simps) auto
    show ?thesis
    proof (cases "mt = m0")
      case True
      then show ?thesis using exec_records[OF "1.prems"(1) Some] by blast
    next
      case False
      then have "mt \<in> set ms'" using "1.prems"(3) ms'(2) by simp
      from "1.IH"[OF Some gt "1.prems"(1) ms'(1) this] show ?thesis .
    qed
  qed
qed

lemma capture_defined:
  "g \<in> cap_keys (mt_caps mt) \<Longrightarrow> capture s mt g \<noteq> None"
  by (auto simp: capture_def cap_keys_def map_of_eq_None_iff split: option.splits)

lemma capture_nonempty:
  assumes "caps_ok L (length s) (mt_caps mt)" "0 < L g" "capture s mt g = Some t"
  shows "t \<noteq> []"
proof -
  from assms(3) obtain a b where ab: "map_of (mt_caps mt) g = Some (a, b)" "t = substr s a b"
    by (auto simp: capture_def split: option.splits)
  then have "(g, a, b) \<in> set (mt_caps mt)" by (auto dest: map_of_SomeD)
  with assms(1,2) have "a < b" "b \<le> length s" by (auto simp: caps_ok_def)
  then show ?thesis using ab(2) by (simp add: substr_def)
qed

lemma getFunctionParameters_returns: "\<exists>f'. getFunctionParameters f = Some f'"
proof (cases "exec paramRegex (b_code f) 0")
  case None
  then show ?thesis by (simp add: getFunctionParameters_def)
next
  case (Some mt)
  have g: "groups_at_least (\<lambda>g. 0) paramRegex"
    by (simp add: paramRegex_def Lit_def Chr_def Many1_def LazyMany_def Space_def)
  have "sets_some {1} paramRegex"
    by (simp add: paramRegex_def Lit_def Chr_def Many1_def LazyMany_def Space_def)
  from exec_records(2)[OF g Some this] have "capture (b_code f) mt 1 \<noteq> None"
    by (intro capture_defined) auto
  then show ?thesis using Some
    by (auto simp: getFunctionParameters_def Let_def split: prod.splits)
qed

definition variable_group_lengths :: "nat \<Rightarrow> nat" where
  "variable_group_lengths g = (if g = 4 then 1 else 0)"

lemma variableRegex_groups:
  "groups_at_least variable_group_lengths variableRegex" "sets_some {3, 4} variableRegex"
  by (simp_all add: variableRegex_def variable_group_lengths_def Lit_def Chr_def Many_def
      Many1_def Maybe_def)

lemma getVariablesFromTuples_returns:
  "\<exists>vs. getVariablesFromTuples tuple tupleIndex staticImmutable = Some vs"
  using execAll_returns[OF minlen_fixed(2), of "str_of tuple" 0]
  by (auto simp: getVariablesFromTuples_def)

lemma declared_variables_returns:
  assumes "execAll variableRegex text 0 = Some ms" "mt \<in> set ms"
  shows "\<exists>vs. declared_variables text mt = Some vs"
proof -
  note r = execAll_records[OF variableRegex_groups(1) assms]
  from r variableRegex_groups(2) have "cap_keys (mt_caps mt) \<inter> {3, 4} \<noteq> {}" by blast
  then have d: "capture text mt 3 \<noteq> None \<or> capture text mt 4 \<noteq> None"
    using capture_defined[of _ mt "text"] by auto
  have ne: "truthy (capture text mt 4)" if "capture text mt 4 \<noteq> None"
  proof -
    from that obtain t where t: "capture text mt 4 = Some t" by auto
    from r have "caps_ok variable_group_lengths (length text) (mt_caps mt)" by simp
    from capture_nonempty[OF this _ t] show ?thesis
      using t by (simp add: truthy_def variable_group_lengths_def)
  qed
  have "(if truthy (capture text mt 4) then capture text mt 4 else capture text mt 3) \<noteq> None"
    using d ne by (auto simp: truthy_def split: option.splits)
  then obtain m0 where m0:
    "(if truthy (capture text mt 4) then capture text mt 4 else capture text mt 3) = Some m0"
    by auto
  show ?thesis
    unfolding declared_variables_def Let_def m0 option.case
    using getVariablesFromTuples_returns by auto
qed

section \<open>The linter returns\<close>

text \<open>No step of \<open>swiftLint\<close> throws and none of its loops runs forever; the list it
  returns is, rule after rule and in the order of the three families, what
  \<open>processRawErrors\<close> makes of the findings of the rule.\<close>

lemma parameters_loop_returns: "\<exists>fs'. parameters_loop fs = Some fs'"
proof (induction fs)
  case Nil
  show ?case by simp
next
  case (Cons f fs)
  then obtain fs' where "parameters_loop fs = Some fs'" by blast
  moreover obtain f' where "getFunctionParameters f = Some f'"
    using getFunctionParameters_returns by blast
  ultimately show ?case by simp
qed

lemma currentComplexity_returns: "\<exists>c. currentComplexity funcBody = Some c"
  using execAll_returns[OF minlen_fixed(1), of funcBody 0]
  by (auto simp: currentComplexity_def)

lemma cyclomaticComplexityRule_returns:
  "\<exists>r. cyclomaticComplexityRule text fns = Some r"
proof (induction fns)
  case Nil
  show ?case by simp
next
  case (Cons f fns)
  then obtain r where "cyclomaticComplexityRule text fns = Some r" by blast
  moreover obtain c where "currentComplexity (b_code f) = Some c"
    using currentComplexity_returns by blast
  ultimately show ?case by simp
qed

lemma declared_loop_returns:
  assumes "execAll variableRegex text 0 = Some ms"
  shows "set ms' \<subseteq> set ms \<Longrightarrow> \<exists>vs. declared_loop text ms' = Some vs"
proof (induction ms')
  case Nil
  show ?case by simp
next
  case (Cons mt ms')
  then obtain vs where "declared_loop text ms' = Some vs" by auto
  moreover obtain v where "declared_variables text mt = Some v"
    using declared_variables_returns[OF assms, of mt] Cons.prems by auto
  ultimately show ?case by simp
qed

lemma parameter_variables_returns: "\<exists>vs. parameter_variables fns = Some vs"
proof (induction fns)
  case Nil
  show ?case by simp
next
  case (Cons f fns)
  then obtain vs where "parameter_variables fns = Some vs" by blast
  moreover obtain v where "getVariablesFromTuples (b_params f)
               (b_index f + js_indexOf (b_code f) ''('' + 1) False = Some v"
    using getVariablesFromTuples_returns by blast
  ultimately show ?case by simp
qed

lemma variableNameRule_returns: "\<exists>r. variableNameRule text fns = Some r"
proof -
  obtain ms where ms: "execAll variableRegex text 0 = Some ms"
    using execAll_returns[OF minlen_fixed(3)] by blast
  obtain d where "declared_loop text ms = Some d"
    using declared_loop_returns[OF ms, of ms] by auto
  moreover obtain p where "parameter_variables fns = Some p"
    using parameter_variables_returns by blast
  ultimately show ?thesis using ms by (simp add: variableNameRule_def)
qed

lemma typeNameRule_returns: "\<exists>r. typeNameRule text types = Some r"
  using execAll_returns[OF minlen_fixed(4), of "text" 0]
  by (auto simp: typeNameRule_def)

lemma regexRule_returns:
  assumes "rule \<in> set allRegexRules"
  shows "\<exists>r. regexRule text rule = Some r"
proof -
  have "\<exists>ranges. processExceptions text (exceptions rule) = Some ranges"
  proof (cases "exceptions rule")
    case None
    then show ?thesis by (simp add: processExceptions_def)
  next
    case (Some es)
    then show ?thesis
      using exception_loop_returns[of es "text"] minlen_exceptions[OF assms Some]
      by (simp add: processExceptions_def)
  qed
  then obtain ranges where r: "processExceptions text (exceptions rule) = Some ranges" by blast
  obtain mss where m: "list_all2 (\<lambda>p ms. execAll p text 0 = Some ms) (rePatterns rule) mss"
    using patterns_return[of "rePatterns rule" "text"] minlen_rules[OF assms] by blast
  from regexRule_filters[OF r m] show ?thesis by blast
qed

lemma extractBodies_returns: "\<exists>bodies. extractBodies text type = Some bodies"
  using extractBodies_spec by blast

lemma extractTypes_returns: "\<exists>types. extractTypes text = Some types"
proof -
  obtain a b c where "extractBodies text ''enum'' = Some a"
    "extractBodies text ''struct'' = Some b" "extractBodies text ''class'' = Some c"
    using extractBodies_returns by meson
  then show ?thesis by (simp add: extractTypes_def)
qed

lemma processRawErrors_append:
  "processRawErrors ix (xs @ ys) = processRawErrors ix xs @ processRawErrors ix ys"
  by (induction xs) auto

lemma all_return:
  "(\<forall>rule\<in>set rules. \<exists>r. run rule = Some r) \<Longrightarrow>
     \<exists>rs. list_all2 (\<lambda>rule r. run rule = Some r) rules rs"
proof (induction rules)
  case Nil
  show ?case by simp
next
  case (Cons rule rules)
  then obtain rs where "list_all2 (\<lambda>rule r. run rule = Some r) rules rs" by auto
  moreover from Cons.prems obtain r where "run rule = Some r" by auto
  ultimately have "list_all2 (\<lambda>rule r. run rule = Some r) (rule # rules) (r # rs)" by simp
  then show ?case by blast
qed

lemma apply_loop_concat:
  assumes "\<And>acc rule. applyRule acc rule = map_option (\<lambda>r. acc @ proc r) (run rule)"
  shows "list_all2 (\<lambda>rule r. run rule = Some r) rules rs \<Longrightarrow>
     apply_loop applyRule rules acc = Some (acc @ concat (map proc rs))"
proof (induction rules rs arbitrary: acc rule: list_all2_induct)
  case Nil
  show ?case by simp
next
  case (Cons rule r rules rs)
  then show ?case by (simp add: assms)
qed

lemma bind_Some_map: "Option.bind x (\<lambda>r. Some (f r)) = map_option f x"
  by (cases x) auto

lemma function_rules_return:
  "\<forall>rule\<in>set allFunctionRules. \<exists>r. rule ix text fns opts cm = Some r"
  using cyclomaticComplexityRule_returns variableNameRule_returns
  by (simp add: allFunctionRules_def)

lemma type_rules_return:
  "\<forall>rule\<in>set allTypeRules. \<exists>r. rule ix text types opts cm = Some r"
  using typeNameRule_returns by (simp add: allTypeRules_def)

lemma swiftLint_structure:
  "\<exists>fns types rs fs ts.
      Option.bind (extractFunctions text) parameters_loop = Some fns
    \<and> extractTypes text = Some types
    \<and> list_all2 (\<lambda>rule r. regexRule text rule = Some r) allRegexRules rs
    \<and> list_all2 (\<lambda>rule r. rule (obtainLineNumbers text) text fns opts cm = Some r)
         allFunctionRules fs
    \<and> list_all2 (\<lambda>rule r. rule (obtainLineNumbers text) text types opts cm = Some r)
         allTypeRules ts
    \<and> swiftLint text opts cm =
        Some (concat (map (processRawErrors (obtainLineNumbers text)) (rs @ fs @ ts)))"
proof -
  let ?ix = "obtainLineNumbers text"
  obtain extracted where e: "extractFunctions text = Some extracted"
    using extractBodies_returns by (auto simp: extractFunctions_def)
  obtain fns where f: "parameters_loop extracted = Some fns"
    using parameters_loop_returns by blast
  obtain types where t: "extractTypes text = Some types"
    using extractTypes_returns by blast
  obtain rs where rs: "list_all2 (\<lambda>rule r. regexRule text rule = Some r) allRegexRules rs"
    using all_return[of allRegexRules "regexRule text"] regexRule_returns by blast
  obtain fs where fs: "list_all2 (\<lambda>rule r. rule ?ix text fns opts cm = Some r)
         allFunctionRules fs"
    using all_return[where run = "\<lambda>rule. rule ?ix text fns opts cm"
        and rules = allFunctionRules, OF function_rules_return] by blast
  obtain ts where ts: "list_all2 (\<lambda>rule r. rule ?ix text types opts cm = Some r)
         allTypeRules ts"
    using all_return[where run = "\<lambda>rule. rule ?ix text types opts cm"
        and rules = allTypeRules, OF type_rules_return] by blast
  have 1: "apply_loop (applyRegexRule ?ix text) allRegexRules acc
        = Some (acc @ concat (map (processRawErrors ?ix) rs))" for acc
    by (rule apply_loop_concat[OF _ rs]) (simp add: applyRegexRule_def bind_Some_map)
  have 2: "apply_loop (applyRuleBuilder ?ix text fns opts cm) allFunctionRules acc
        = Some (acc @ concat (map (processRawErrors ?ix) fs))" for acc
    by (rule apply_loop_concat[OF _ fs]) (simp add: applyRuleBuilder_def bind_Some_map)
  have 3: "apply_loop (applyRuleBuilder ?ix text types opts cm) allTypeRules acc
        = Some (acc @ concat (map (processRawErrors ?ix) ts))" for acc
    by (rule apply_loop_concat[OF _ ts]) (simp add: applyRuleBuilder_def bind_Some_map)
  have "swiftLint text opts cm =
        Some (concat (map (processRawErrors ?ix) (rs @ fs @ ts)))"
    by (simp add: swiftLint_def e f t 1 2 3 Let_def)
  with e f t rs fs ts show ?thesis by auto
qed

section \<open>Properties of the main linting function\<close>

lemma swiftLint_ignores_options: "swiftLint text opts1 cm1 = swiftLint text opts2 cm2"
  by (simp add: swiftLint_def applyRuleBuilder_def allFunctionRules_def allTypeRules_def)

text \<open>
  C10. For every text and any two values of the options (and of the editor argument),
  the two calls of \<open>swiftLint\<close> return, and return the same list of diagnostics: the
  options are handed to every rule and read by none.
\<close>

theorem options_noninterference:
  "\<exists>ds. swiftLint text opts1 cm1 = Some ds \<and> swiftLint text opts2 cm2 = Some ds"
proof -
  obtain ds where "swiftLint text opts1 cm1 = Some ds"
    using swiftLint_structure[of "text" opts1 cm1] by blast
  then show ?thesis using swiftLint_ignores_options[of "text" opts1 cm1 opts2 cm2] by simp
qed

lemma processRawErrors_single:
  "processRawErrors ix [r] =
     (case (getLinePos ix (e_index r),
            getLinePos ix (js_add (e_index r) (int (length (e_code r))))) of
        (Some p, Some q) \<Rightarrow>
          [\<lparr>d_severity = e_severity r, d_message = e_message r, d_from = p, d_to = q\<rparr>]
      | _ \<Rightarrow> [])"
  by (simp add: Let_def)


lemma processRawErrors_keep:
  assumes "getLinePos ix (e_index r) = Some p"
    "getLinePos ix (js_add (e_index r) (int (length (e_code r)))) = Some q"
  shows "processRawErrors ix (xs @ r # ys) =
     processRawErrors ix xs
     @ \<lparr>d_severity = e_severity r, d_message = e_message r, d_from = p, d_to = q\<rparr>
       # processRawErrors ix ys"
proof -
  have "processRawErrors ix [r] =
      [\<lparr>d_severity = e_severity r, d_message = e_message r, d_from = p, d_to = q\<rparr>]"
    using assms by (simp add: processRawErrors_single)
  then show ?thesis
    using processRawErrors_append[of ix xs "[r] @ ys"] processRawErrors_append[of ix "[r]" ys]
    by simp
qed

subsection \<open>On the engine that completes every match\<close>
























subsection \<open>On an engine that may raise\<close>
































subsection \<open>The engine with a bounded stack agrees with the matcher\<close>








subsection \<open>A long tuple declaration overflows the stack\<close>

text \<open>The loop \<^verbatim>\<open>(?:\w+(?:\,\s+)?)+\<close> of the binding pattern leaves an entry on the stack
  for every name of a tuple that it has passed, so a declaration of more names than the
  stack has entries overflows it. \<open>tupleDeclaration n\<close> declares a tuple of \<open>n + 1\<close>
  names.\<close>

definition tupleBody :: regex where
  "tupleBody = Seq (Many1 (Cls is_word)) (Maybe (Seq (Chr CHR '','') (Many1 (Cls is_space))))"

lemma rep_b_none_left: "rep_b cap n f greedy mn (Some 0) k d st = k d st"
  by (cases n) simp_all

lemma element_overflow:
  assumes r: "m_rest st = ''a, '' @ R" and R: "R \<noteq> [] \<and> \<not> is_space (hd R)"
    and k: "kk (Suc d)
        (st\<lparr>m_at := m_at st + 3, m_prev := Some CHR '' '', m_rest := R\<rparr>) = Overflow"
  shows "matcher_b cap tupleBody kk d st = Overflow"
proof -
  obtain c cs where Rc: "R = c # cs" and c: "\<not> is_space c" using R by (cases R) auto
  have w: "is_word CHR ''a''" "\<not> is_word CHR '',''" "is_space CHR '' ''"
    by (simp_all add: is_word_def is_alnum_def is_lower_def is_upper_def is_digit_def
        between_def char_code_def is_space_def)
  have e: "m_at st + 3 = Suc (Suc (Suc (m_at st)))" by simp
  show ?thesis
    unfolding tupleBody_def
    using r Rc c w k[unfolded e Rc]
    by (simp add: Many1_def Maybe_def Chr_def rep_b_none_left Let_def)
qed

definition tupleElements :: "nat \<Rightarrow> string" where
  "tupleElements n = concat (replicate n ''a, '') @ ''a)''"

lemma tupleElements_Suc: "tupleElements (Suc n) = ''a, '' @ tupleElements n"
  by (simp add: tupleElements_def)

lemma tupleElements_head: "tupleElements n \<noteq> [] \<and> \<not> is_space (hd (tupleElements n))"
  by (cases n) (simp_all add: tupleElements_def is_space_def char_code_def)

lemma length_tupleElements: "length (tupleElements n) = 3 * n + 2"
  by (induction n) (simp_all add: tupleElements_def)

lemma elements_overflow:
  "m_rest st = tupleElements m \<Longrightarrow> m < n \<Longrightarrow> cap \<le> d + m \<Longrightarrow>
     rep_b cap n (matcher_b cap tupleBody) True 0 None k d st = Overflow"
proof (induction m arbitrary: n d st)
  case 0
  then obtain n' where n: "n = Suc n'" by (cases n) auto
  show ?case using 0 unfolding n by simp
next
  case (Suc m)
  then obtain n' where n: "n = Suc n'" by (cases n) auto
  define st3 where
    "st3 = st\<lparr>m_at := m_at st + 3, m_prev := Some CHR '' '', m_rest := tupleElements m\<rparr>"
  define again where
    "again = (\<lambda>d' st'. if (0::nat) = 0 \<and> m_at st' = m_at st then Fail
        else rep_b cap n' (matcher_b cap tupleBody) True (0 - 1)
               (map_option (\<lambda>x. x - 1) None) k d' st')"
  have r: "m_rest st = ''a, '' @ tupleElements m"
    using Suc.prems(1) by (simp only: tupleElements_Suc)
  have "rep_b cap n' (matcher_b cap tupleBody) True 0 None k (Suc (Suc d)) st3 = Overflow"
    using Suc.prems by (intro Suc.IH) (simp_all add: st3_def n)
  then have a: "again (Suc (Suc d)) st3 = Overflow"
    by (simp add: again_def st3_def)
  have b: "matcher_b cap tupleBody again (Suc d) st = Overflow"
    by (rule element_overflow[OF r tupleElements_head]) (use a in \<open>simp add: st3_def\<close>)
  have "rep_b cap (Suc n') (matcher_b cap tupleBody) True 0 None k d st
      = (if cap \<le> d then Overflow
         else case matcher_b cap tupleBody again (Suc d) st of
                Fail \<Rightarrow> k d st | res \<Rightarrow> res)"
    unfolding again_def by (simp add: Let_def)
  then show ?case unfolding n b by simp
qed

lemma group_overflow:
  assumes "m_rest st = tupleElements (Suc m)" "cap \<le> Suc d + m"
  shows "matcher_b cap (Many1 tupleBody) k d st = Overflow"
proof -
  define n where "n = length (m_rest st)"
  define st3 where
    "st3 = st\<lparr>m_at := m_at st + 3, m_prev := Some CHR '' '', m_rest := tupleElements m\<rparr>"
  define again where
    "again = (\<lambda>d' st'. if (1::nat) = 0 \<and> m_at st' = m_at st then Fail
        else rep_b cap n (matcher_b cap tupleBody) True (1 - 1)
               (map_option (\<lambda>x. x - 1) None) k d' st')"
  have r: "m_rest st = ''a, '' @ tupleElements m"
    using assms(1) by (simp only: tupleElements_Suc)
  have "m < n" using assms(1) by (simp add: n_def length_tupleElements)
  then have "rep_b cap n (matcher_b cap tupleBody) True 0 None k (Suc d) st3 = Overflow"
    using assms(2) by (intro elements_overflow) (simp_all add: st3_def)
  then have a: "again (Suc d) st3 = Overflow" by (simp add: again_def)
  have "matcher_b cap (Many1 tupleBody) k d st = matcher_b cap tupleBody again d st"
    unfolding again_def n_def Many1_def by (simp add: Let_def)
  also have "\<dots> = Overflow"
    by (rule element_overflow[OF r tupleElements_head]) (use a in \<open>simp add: st3_def\<close>)
  finally show ?thesis .
qed

definition tupleDeclaration :: "nat \<Rightarrow> string" where
  "tupleDeclaration n = ''let ('' @ tupleElements n"

lemma variableRegex_overflow:
  assumes "cap \<le> Suc m"
  shows "matcher_b cap variableRegex k 0
           \<lparr>m_at = 0, m_prev = None, m_rest = tupleDeclaration (Suc m), m_caps = []\<rparr>
         = Overflow"
proof -
  define G where "G = Many1 tupleBody"
  have v: "variableRegex =
      Seqs [Maybe (Grp 1 (Lit ''static'')), Many (Cls is_space),
            Grp 2 (Alt (Lit ''var'') (Lit ''let'')), Many1 (Cls is_space),
            Alt (Grp 3 (Many1 (Cls is_word)))
                (Seqs [Chr CHR ''('', Grp 4 G, Chr CHR '')''])]"
    by (simp add: variableRegex_def G_def tupleBody_def)
  have g: "matcher_b cap G kk 0 st = Overflow" if "m_rest st = tupleElements (Suc m)" for kk st
    unfolding G_def using that assms by (intro group_overflow) simp_all
  have c: "\<not> is_space CHR ''l''" "is_space CHR '' ''" "\<not> is_space CHR ''(''"
    "\<not> is_word CHR ''(''"
    by (simp_all add: is_word_def is_alnum_def is_lower_def is_upper_def is_digit_def
        between_def char_code_def is_space_def)
  show ?thesis
    unfolding v tupleDeclaration_def
    by (simp add: Maybe_def Many_def Many1_def Lit_def Chr_def Let_def rep_b_none_left g c)
qed

lemma exec_b_overflow:
  assumes "cap \<le> n" "0 < n"
  shows "exec_b cap variableRegex (tupleDeclaration n) 0 = None"
proof -
  obtain m where n: "n = Suc m" using assms(2) by (cases n) auto
  show ?thesis
    using variableRegex_overflow[of cap m "\<lambda>d. Matched"] assms(1)
    by (simp add: n exec_b_def tupleDeclaration_def)
qed

lemma bind_none: "Option.bind m (\<lambda>x. None) = None"
  by (cases m) simp_all

lemma apply_loop_raises:
  assumes "\<And>acc. applyRule acc r = None"
  shows "apply_loop applyRule (rs @ [r]) acc = None"
proof (induction rs arbitrary: acc)
  case Nil
  show ?case by (simp add: assms)
next
  case (Cons a rs)
  have "apply_loop applyRule (rs @ [r]) = (\<lambda>acc. None)"
    by (rule ext) (rule Cons.IH)
  then show ?case by (simp add: bind_none)
qed

lemma variableNameRule_raises:
  "E variableRegex text 0 = None \<Longrightarrow> variableNameRule_on E text fns = None"
proof -
  assume "E variableRegex text 0 = None"
  then have "execAll_on E variableRegex text 0 = None"
    by (subst execAll_on.simps) simp
  then show ?thesis by (simp add: variableNameRule_on_def)
qed

lemma swiftLint_raises:
  assumes "E variableRegex text 0 = None"
  shows "swiftLint_on E text opts cm = None"
proof -
  have v: "applyRuleBuilder ix text fns opts cm acc
      (\<lambda>ix text functions opts cm. variableNameRule_on E text functions) = None"
    for ix fns acc
    using variableNameRule_raises[of E "text" fns] assms by (simp add: applyRuleBuilder_def)
  have a: "allFunctionRules_on E =
      [\<lambda>ix text functions opts cm. cyclomaticComplexityRule_on E text functions,
       \<lambda>ix text functions opts cm. Some (functionBodyLengthRule text functions),
       \<lambda>ix text functions opts cm. Some (functionParameterCountRule text functions),
       \<lambda>ix text functions opts cm. Some (lineLengthRule ix text),
       \<lambda>ix text functions opts cm. Some (nestingFuncRule text functions)]
      @ [\<lambda>ix text functions (opts :: 'a) (cm :: 'b). variableNameRule_on E text functions]"
    by (simp add: allFunctionRules_on_def)
  have "apply_loop (applyRuleBuilder ix text fns opts cm) (allFunctionRules_on E) acc = None"
    for ix fns acc
    unfolding a by (rule apply_loop_raises) (rule v)
  then show ?thesis by (simp add: swiftLint_on_def Let_def bind_none)
qed

text \<open>Whatever the capacity of the stack, the declaration of a tuple of more names than
  the stack has entries is a text on which \<open>swiftLint\<close> does not return.\<close>

lemma swiftLint_overflow:
  assumes "cap \<le> n" "0 < n"
  shows "swiftLint_on (exec_b cap) (tupleDeclaration n) opts cm = None"
  using swiftLint_raises[of "exec_b cap" "tupleDeclaration n" opts cm] exec_b_overflow[OF assms]
  by simp







section \<open>Properties of the line length rule\<close>

lemma lineNumbers_loop_nth:
  "i < length ls \<Longrightarrow>
     lineNumbers_loop c ls ! i = c + (\<Sum>l\<leftarrow>take i ls. int (length l) + 1)"
proof (induction ls arbitrary: c i)
  case Nil
  then show ?case by simp
next
  case (Cons l ls)
  show ?case
  proof (cases i)
    case 0
    then show ?thesis by simp
  next
    case (Suc i')
    then show ?thesis using Cons.prems Cons.IH[of i' "c + int (length l) + 1"] by simp
  qed
qed

lemma split_chr_total_length:
  "(\<Sum>l\<leftarrow>split_chr sep s. int (length l) + 1) = int (length s) + 1"
proof (induction s)
  case Nil
  show ?case by simp
next
  case (Cons c s)
  then show ?case by (cases "split_chr sep s") (auto simp: split_chr_nonempty)
qed

lemma line_start_Suc:
  assumes "Suc i < length ls"
  shows "lineNumbers_loop c ls ! Suc i = lineNumbers_loop c ls ! i + int (length (ls ! i)) + 1"
proof -
  have "take (Suc i) ls = take i ls @ [ls ! i]"
    using assms by (simp add: take_Suc_conv_app_nth)
  then show ?thesis using assms by (simp add: lineNumbers_loop_nth)
qed

lemma line_start_last:
  assumes "Suc i = length (split_chr sep s)"
  shows "lineNumbers_loop 0 (split_chr sep s) ! i + int (length (split_chr sep s ! i))
       = int (length s)"
proof -
  let ?ls = "split_chr sep s"
  have lt: "i < length ?ls" using assms by linarith
  have a: "take (Suc i) ?ls = take i ?ls @ [?ls ! i]"
    using lt by (rule take_Suc_conv_app_nth)
  have b: "take (Suc i) ?ls = ?ls" unfolding assms by simp
  have eq: "?ls = take i ?ls @ [?ls ! i]" using a unfolding b .
  have "(\<Sum>l\<leftarrow>?ls. int (length l) + 1)
      = (\<Sum>l\<leftarrow>take i ?ls. int (length l) + 1) + int (length (?ls ! i)) + 1"
    using arg_cong[OF eq, of "\<lambda>xs. \<Sum>l\<leftarrow>xs. int (length l) + 1"] by simp
  then show ?thesis
    using assms split_chr_total_length[of sep s] by (simp add: lineNumbers_loop_nth)
qed

lemma line_starts_increase:
  "j < k \<Longrightarrow> k < length ls \<Longrightarrow> lineNumbers_loop c ls ! j < lineNumbers_loop c ls ! k"
proof (induction k)
  case 0
  then show ?case by simp
next
  case (Suc k)
  have s: "lineNumbers_loop c ls ! k < lineNumbers_loop c ls ! Suc k"
    using Suc.prems by (simp add: line_start_Suc)
  show ?case
  proof (cases "j = k")
    case True
    then show ?thesis using s by simp
  next
    case False
    then have "lineNumbers_loop c ls ! j < lineNumbers_loop c ls ! k"
      using Suc by simp
    then show ?thesis using s by simp
  qed
qed

lemma getLinePos_loop_line:
  assumes n: "i < length (LINE_NUMBERS ix)"
    and sorted: "\<And>j k. j < k \<Longrightarrow> k < length (LINE_NUMBERS ix)
                   \<Longrightarrow> LINE_NUMBERS ix ! j < LINE_NUMBERS ix ! k"
    and lo: "LINE_NUMBERS ix ! i \<le> index"
    and hi: "Suc i < length (LINE_NUMBERS ix) \<Longrightarrow> index < LINE_NUMBERS ix ! Suc i"
    and last: "Suc i = length (LINE_NUMBERS ix) \<Longrightarrow> index \<le> TEXT_LENGTH ix"
  shows "j \<le> i \<Longrightarrow> getLinePos_loop ix index j =
           Some \<lparr>line = int i, ch = Num (index - LINE_NUMBERS ix ! i)\<rparr>"
proof (induction "i - j" arbitrary: j)
  case 0
  then have j: "j = i" by simp
  show ?case
  proof (cases "index = LINE_NUMBERS ix ! i")
    case True
    then show ?thesis using n j by (subst getLinePos_loop.simps) simp
  next
    case False
    then have gt: "LINE_NUMBERS ix ! i < index" using lo by simp
    show ?thesis
    proof (cases "Suc i = length (LINE_NUMBERS ix)")
      case True
      then show ?thesis using n j gt last by (subst getLinePos_loop.simps) auto
    next
      case F2: False
      then have s: "Suc i < length (LINE_NUMBERS ix)" using n by simp
      have "getLinePos_loop ix index i = getLinePos_loop ix index (i + 1)"
        using n gt F2 by (subst getLinePos_loop.simps) auto
      also have "\<dots> = Some \<lparr>line = int i, ch = Num (index - LINE_NUMBERS ix ! i)\<rparr>"
        using s hi by (subst getLinePos_loop.simps) simp
      finally show ?thesis using j by simp
    qed
  qed
next
  case (Suc d)
  then have ji: "j < i" by simp
  then have lt: "LINE_NUMBERS ix ! j < index" using sorted[of j i] n lo by simp
  have "getLinePos_loop ix index j = getLinePos_loop ix index (j + 1)"
    using ji n lt by (subst getLinePos_loop.simps) auto
  also have "\<dots> = Some \<lparr>line = int i, ch = Num (index - LINE_NUMBERS ix ! i)\<rparr>"
    using Suc ji by (intro Suc.hyps(1)) auto
  finally show ?case .
qed

lemma getLinePos_in_line:
  assumes "i < length (split_chr newline text)" "0 \<le> c"
    "c \<le> int (length (split_chr newline text ! i))"
  shows "getLinePos (obtainLineNumbers text)
           (Num (LINE_NUMBERS (obtainLineNumbers text) ! i + c))
         = Some \<lparr>line = int i, ch = Num c\<rparr>"
proof -
  let ?ix = "obtainLineNumbers text"
  let ?ls = "split_chr newline text"
  have LN: "LINE_NUMBERS ?ix = lineNumbers_loop 0 ?ls" by (simp add: obtainLineNumbers_def)
  have len: "length (LINE_NUMBERS ?ix) = length ?ls" by (simp add: LN length_lineNumbers_loop)
  have "getLinePos_loop ?ix (LINE_NUMBERS ?ix ! i + c) 0 =
           Some \<lparr>line = int i, ch = Num (LINE_NUMBERS ?ix ! i + c - LINE_NUMBERS ?ix ! i)\<rparr>"
  proof (rule getLinePos_loop_line)
    show "i < length (LINE_NUMBERS ?ix)" using assms(1) len by simp
    show "LINE_NUMBERS ?ix ! j < LINE_NUMBERS ?ix ! k"
      if "j < k" "k < length (LINE_NUMBERS ?ix)" for j k
      using that len by (simp add: LN line_starts_increase)
    show "LINE_NUMBERS ?ix ! i \<le> LINE_NUMBERS ?ix ! i + c" using assms(2) by simp
    show "LINE_NUMBERS ?ix ! i + c < LINE_NUMBERS ?ix ! Suc i"
      if "Suc i < length (LINE_NUMBERS ?ix)"
      using that len assms(3) by (simp add: LN line_start_Suc)
    show "LINE_NUMBERS ?ix ! i + c \<le> TEXT_LENGTH ?ix"
      if "Suc i = length (LINE_NUMBERS ?ix)"
      using that len assms(3) line_start_last[of i newline "text"]
      by (simp add: LN obtainLineNumbers_def)
    show "0 \<le> i" by simp
  qed
  then show ?thesis by (simp add: getLinePos_def)
qed

lemma lineLength_loop_mem:
  "i < length ls \<Longrightarrow> 100 < length (ls ! i) \<Longrightarrow>
     \<lparr>e_code = ls ! i, e_index = line_start ix (k + i),
       e_severity = (if 200 < length (ls ! i) then Error else Warning),
       e_message = lineLengthMessage (ls ! i)\<rparr> \<in> set (lineLength_loop ix k ls)"
proof (induction ls arbitrary: i k)
  case Nil
  then show ?case by simp
next
  case (Cons l ls)
  show ?case
  proof (cases i)
    case 0
    then show ?thesis using Cons.prems by simp
  next
    case (Suc i')
    then show ?thesis using Cons.prems Cons.IH[of i' "k + 1"] by simp
  qed
qed

lemma processRawErrors_mem:
  assumes "r \<in> set rs" "getLinePos ix (e_index r) = Some p"
    "getLinePos ix (js_add (e_index r) (int (length (e_code r)))) = Some q"
  shows "\<lparr>d_severity = e_severity r, d_message = e_message r, d_from = p, d_to = q\<rparr>
           \<in> set (processRawErrors ix rs)"
proof -
  from assms(1) obtain xs ys where "rs = xs @ r # ys" by (meson split_list)
  then show ?thesis using processRawErrors_keep[OF assms(2,3), of xs ys] by simp
qed

lemma lineLength_diagnostic:
  assumes "i < length (split_chr newline text)"
    "100 < length (split_chr newline text ! i)"
  shows "\<lparr>d_severity = (if 200 < length (split_chr newline text ! i) then Error else Warning),
          d_message = lineLengthMessage (split_chr newline text ! i),
          d_from = \<lparr>line = int i, ch = Num 0\<rparr>,
          d_to = \<lparr>line = int i, ch = Num (int (length (split_chr newline text ! i)))\<rparr>\<rparr>
         \<in> set (processRawErrors (obtainLineNumbers text)
                  (lineLengthRule (obtainLineNumbers text) text))"
proof -
  let ?ix = "obtainLineNumbers text"
  let ?l = "split_chr newline text ! i"
  let ?r = "\<lparr>e_code = ?l, e_index = line_start ?ix (0 + i),
       e_severity = (if 200 < length ?l then Error else Warning),
       e_message = lineLengthMessage ?l\<rparr>"
  have len: "length (LINE_NUMBERS ?ix) = length (split_chr newline text)"
    by (simp add: obtainLineNumbers_def length_lineNumbers_loop)
  have st: "line_start ?ix i = Num (LINE_NUMBERS ?ix ! i)"
    using assms(1) len by (simp add: line_start_def)
  have m: "?r \<in> set (lineLengthRule ?ix text)"
    unfolding lineLengthRule_def using assms by (rule lineLength_loop_mem)
  have p: "getLinePos ?ix (e_index ?r) = Some \<lparr>line = int i, ch = Num 0\<rparr>"
    using getLinePos_in_line[OF assms(1), of 0] by (simp add: st)
  have q: "getLinePos ?ix (js_add (e_index ?r) (int (length (e_code ?r))))
      = Some \<lparr>line = int i, ch = Num (int (length ?l))\<rparr>"
    using getLinePos_in_line[OF assms(1), of "int (length ?l)"] by (simp add: st js_add_def)
  from processRawErrors_mem[OF m p q] show ?thesis by simp
qed

text \<open>A line of 101 characters.\<close>

definition longLine :: string where
  "longLine = replicate 101 CHR ''x''"

text \<open>
  C9. For every text, every line of more than 100 characters has its diagnostic in the
  list that \<open>swiftLint\<close> returns: a warning, or an error when the line has more than 200
  characters, with the message of the line length rule, from column \<open>0\<close> of the line to
  its end. The line length rule is the fourth of the function-based rules.
\<close>

theorem line_length_rule:
  "(i < length (split_chr newline text) \<and> 100 < length (split_chr newline text ! i) \<longrightarrow>
      (\<exists>ds. swiftLint text opts cm = Some ds
         \<and> \<lparr>d_severity = (if 200 < length (split_chr newline text ! i) then Error else Warning),
             d_message = lineLengthMessage (split_chr newline text ! i),
             d_from = \<lparr>line = int i, ch = Num 0\<rparr>,
             d_to = \<lparr>line = int i, ch = Num (int (length (split_chr newline text ! i)))\<rparr>\<rparr>
            \<in> set ds))
   \<and> (allFunctionRules ! 3) ix text fns opts cm = Some (lineLengthRule ix text)"
proof -
  have "\<exists>ds. swiftLint text opts cm = Some ds
         \<and> \<lparr>d_severity = (if 200 < length (split_chr newline text ! i) then Error else Warning),
             d_message = lineLengthMessage (split_chr newline text ! i),
             d_from = \<lparr>line = int i, ch = Num 0\<rparr>,
             d_to = \<lparr>line = int i, ch = Num (int (length (split_chr newline text ! i)))\<rparr>\<rparr>
            \<in> set ds"
    if a: "i < length (split_chr newline text)" "100 < length (split_chr newline text ! i)"
  proof -
    let ?ix = "obtainLineNumbers text"
    from swiftLint_structure[of "text" opts cm] obtain fns rs fs ts where
      fs: "list_all2 (\<lambda>rule r. rule ?ix text fns opts cm = Some r) allFunctionRules fs"
      and sl: "swiftLint text opts cm = Some (concat (map (processRawErrors ?ix) (rs @ fs @ ts)))"
      by blast
    have l: "length fs = 6"
      using list_all2_lengthD[OF fs] by (simp add: allFunctionRules_def)
    have "(allFunctionRules ! 3) ?ix text fns opts cm = Some (fs ! 3)"
      using list_all2_nthD[OF fs, of 3] by (simp add: allFunctionRules_def)
    then have "fs ! 3 = lineLengthRule ?ix text" by (simp add: allFunctionRules_def)
    moreover have "fs ! 3 \<in> set fs" using l by simp
    ultimately have "lineLengthRule ?ix text \<in> set fs" by simp
    then have "set (processRawErrors ?ix (lineLengthRule ?ix text))
        \<subseteq> set (concat (map (processRawErrors ?ix) (rs @ fs @ ts)))"
      by auto
    with lineLength_diagnostic[OF a] sl show ?thesis by blast
  qed
  then show ?thesis by (simp add: allFunctionRules_def)
qed

theorem line_length_rule_witness:
  "0 < length (split_chr newline longLine) \<and> 100 < length (split_chr newline longLine ! 0)
   \<and> (\<exists>ds. swiftLint longLine () () = Some ds
         \<and> \<lparr>d_severity = Warning, d_message = lineLengthMessage longLine,
             d_from = \<lparr>line = 0, ch = Num 0\<rparr>, d_to = \<lparr>line = 0, ch = Num 101\<rparr>\<rparr> \<in> set ds)"
proof -
  have a: "split_chr newline longLine = [longLine]" by code_simp
  have b: "length longLine = 101" by (simp add: longLine_def)
  from line_length_rule[of 0 longLine "()" "()"]
  have "0 < length (split_chr newline longLine) \<and> 100 < length (split_chr newline longLine ! 0)
    \<longrightarrow> (\<exists>ds. swiftLint longLine () () = Some ds
         \<and> \<lparr>d_severity = (if 200 < length (split_chr newline longLine ! 0) then Error
                           else Warning),
             d_message = lineLengthMessage (split_chr newline longLine ! 0),
             d_from = \<lparr>line = int 0, ch = Num 0\<rparr>,
             d_to = \<lparr>line = int 0,
                     ch = Num (int (length (split_chr newline longLine ! 0)))\<rparr>\<rparr> \<in> set ds)"
    by (rule conjunct1)
  then show ?thesis by (simp add: a b)
qed


section \<open>Properties of the complexity rule\<close>

text \<open>The words of a text: its maximal runs of word characters (letters, digits and the
  underscore), from left to right. An occurrence of a keyword in a text is a word of the
  text that spells the keyword, which is what the pattern \<open>\b(if|func|...)\b\<close> finds.\<close>

function words_of :: "string \<Rightarrow> string list" where
  "words_of [] = []"
| "words_of (c # cs) =
     (if is_word c then (c # takeWhile is_word cs) # words_of (dropWhile is_word cs)
      else words_of cs)"
  by pat_completeness auto
termination
  by (relation "measure length") (auto simp: length_dropWhile_le less_Suc_eq_le)

text \<open>The eight keywords of \<open>keyRegex\<close>, in the order of its alternatives.\<close>

definition complexity_keywords :: "string list" where
  "complexity_keywords = [''if'', ''func'', ''while'', ''for'', ''guard'', ''case'', ''switch'',
               ''fallthrough'']"

subsection \<open>The matches of the keyword pattern are the keywords among the words\<close>

lemma Seqs_Cons:
  "rs \<noteq> [] \<Longrightarrow>
     matcher_of (Seqs (r # rs)) k st = matcher_of r (matcher_of (Seqs rs) k) st"
  by (cases rs) auto

lemma lit_matcher:
  "matcher_of (Lit kw) k st =
     (if take (length kw) (m_rest st) = kw \<and> length kw \<le> length (m_rest st) then
        k (st\<lparr>m_at := m_at st + length kw,
                m_prev := (if kw = [] then m_prev st else Some (last kw)),
                m_rest := drop (length kw) (m_rest st)\<rparr>)
      else None)"
proof (induction kw arbitrary: st)
  case Nil
  show ?case by (simp add: Lit_def)
next
  case (Cons c kw)
  show ?case
  proof (cases "kw = []")
    case True
    then show ?thesis
      by (cases "m_rest st") (auto simp: Lit_def Chr_def)
  next
    case False
    have "matcher_of (Lit (c # kw)) k st = matcher_of (Chr c) (matcher_of (Lit kw) k) st"
      using False unfolding Lit_def by (simp add: Seqs_Cons)
    then show ?thesis using False
      by (cases "m_rest st") (auto simp: Chr_def Cons.IH)
  qed
qed

lemma takeWhile_eq_prefix:
  assumes "list_all P kw"
  shows "takeWhile P xs = kw \<longleftrightarrow>
     take (length kw) xs = kw \<and> length kw \<le> length xs
     \<and> (case drop (length kw) xs of [] \<Rightarrow> True | y # ys \<Rightarrow> \<not> P y)"
proof
  assume t: "takeWhile P xs = kw"
  have x: "xs = kw @ dropWhile P xs" using takeWhile_dropWhile_id[of P xs] t by simp
  have d: "drop (length kw) xs = dropWhile P xs"
    using arg_cong[OF x, of "drop (length kw)"] by simp
  have "take (length kw) xs = kw" using arg_cong[OF x, of "take (length kw)"] by simp
  moreover have "length kw \<le> length xs" using arg_cong[OF x, of length] by simp
  moreover have "case drop (length kw) xs of [] \<Rightarrow> True | y # ys \<Rightarrow> \<not> P y"
  proof (cases "dropWhile P xs")
    case Nil
    show ?thesis unfolding d Nil by simp
  next
    case (Cons y ys)
    then have "\<not> P y" using hd_dropWhile[of P xs] by simp
    then show ?thesis unfolding d Cons by simp
  qed
  ultimately show "take (length kw) xs = kw \<and> length kw \<le> length xs
     \<and> (case drop (length kw) xs of [] \<Rightarrow> True | y # ys \<Rightarrow> \<not> P y)" by blast
next
  assume a: "take (length kw) xs = kw \<and> length kw \<le> length xs
     \<and> (case drop (length kw) xs of [] \<Rightarrow> True | y # ys \<Rightarrow> \<not> P y)"
  then have t: "take (length kw) xs = kw"
    and c: "case drop (length kw) xs of [] \<Rightarrow> True | y # ys \<Rightarrow> \<not> P y" by blast+
  have x: "xs = kw @ drop (length kw) xs"
    using append_take_drop_id[of "length kw" xs] unfolding t by simp
  have k: "\<forall>x\<in>set kw. P x" using assms by (simp add: list_all_iff)
  have "takeWhile P xs = takeWhile P (kw @ drop (length kw) xs)"
    using arg_cong[OF x, of "takeWhile P"] .
  also have "\<dots> = kw @ takeWhile P (drop (length kw) xs)"
    using k by (simp add: takeWhile_append2)
  also have "\<dots> = kw" using c by (cases "drop (length kw) xs") auto
  finally show "takeWhile P xs = kw" .
qed

text \<open>The state after a keyword that is a whole word.\<close>

definition after_word :: "mstate \<Rightarrow> mstate" where
  "after_word st =
     (let w = takeWhile is_word (m_rest st)
      in st\<lparr>m_at := m_at st + length w, m_prev := Some (last w),
            m_rest := drop (length w) (m_rest st),
            m_caps := (1, m_at st, m_at st + length w) # m_caps st\<rparr>)"

text \<open>The continuation of the group in \<open>keyRegex\<close>: record group 1, then the closing
  word boundary.\<close>

definition word_end :: "nat \<Rightarrow> cont" where
  "word_end a =
     (\<lambda>st'. matcher_of WordB Some (st'\<lparr>m_caps := (1, a, m_at st') # m_caps st'\<rparr>))"

lemma keyword_then_boundary:
  assumes "kw \<noteq> []" "list_all is_word kw"
  shows "matcher_of (Lit kw) (word_end (m_at st)) st =
     (if takeWhile is_word (m_rest st) = kw then Some (after_word st) else None)"
proof -
  let ?st1 = "st\<lparr>m_at := m_at st + length kw, m_prev := Some (last kw),
                  m_rest := drop (length kw) (m_rest st)\<rparr>"
  have lw: "is_word (last kw)" using assms by (simp add: list_all_iff)
  have nc: "is_word_opt (next_char (?st1\<lparr>m_caps := c\<rparr>)) =
      (\<not> (case drop (length kw) (m_rest st) of [] \<Rightarrow> True | y # ys \<Rightarrow> \<not> is_word y))" for c
    by (cases "drop (length kw) (m_rest st)") (simp_all add: next_char_def is_word_opt_def)
  have we: "word_end (m_at st) ?st1 =
      (if (case drop (length kw) (m_rest st) of [] \<Rightarrow> True | y # ys \<Rightarrow> \<not> is_word y)
       then Some (?st1\<lparr>m_caps := (1, m_at st, m_at st + length kw) # m_caps st\<rparr>)
       else None)"
    unfolding word_end_def matcher_of.simps nc using lw by (simp add: is_word_opt_def)
  have lit: "matcher_of (Lit kw) (word_end (m_at st)) st =
      (if take (length kw) (m_rest st) = kw \<and> length kw \<le> length (m_rest st)
       then word_end (m_at st) ?st1 else None)"
    using assms(1) by (simp add: lit_matcher)
  show ?thesis
  proof (cases "takeWhile is_word (m_rest st) = kw")
    case True
    note p = iffD1[OF takeWhile_eq_prefix[OF assms(2)] True]
    show ?thesis unfolding lit we using p True by (simp add: after_word_def)
  next
    case False
    then have "\<not> (take (length kw) (m_rest st) = kw \<and> length kw \<le> length (m_rest st)
     \<and> (case drop (length kw) (m_rest st) of [] \<Rightarrow> True | y # ys \<Rightarrow> \<not> is_word y))"
      using takeWhile_eq_prefix[OF assms(2), of "m_rest st"] by blast
    then show ?thesis unfolding lit we using False by auto
  qed
qed

lemma Alts_Cons:
  "rs \<noteq> [] \<Longrightarrow> matcher_of (Alts (r # rs)) k st =
     (case matcher_of r k st of Some x \<Rightarrow> Some x | None \<Rightarrow> matcher_of (Alts rs) k st)"
  by (cases rs) auto

lemma keywords_then_boundary:
  assumes "kws \<noteq> []" "\<forall>kw\<in>set kws. kw \<noteq> [] \<and> list_all is_word kw"
  shows "matcher_of (Alts (map Lit kws)) (word_end (m_at st)) st =
     (if takeWhile is_word (m_rest st) \<in> set kws then Some (after_word st) else None)"
  using assms
proof (induction kws)
  case Nil
  then show ?case by simp
next
  case (Cons kw kws)
  show ?case
  proof (cases "kws = []")
    case True
    then show ?thesis using Cons.prems by (simp add: keyword_then_boundary)
  next
    case False
    then have "matcher_of (Alts (map Lit (kw # kws))) (word_end (m_at st)) st =
        (case matcher_of (Lit kw) (word_end (m_at st)) st of
           Some r \<Rightarrow> Some r
         | None \<Rightarrow> matcher_of (Alts (map Lit kws)) (word_end (m_at st)) st)"
      by (simp add: Alts_Cons)
    then show ?thesis using Cons False by (auto simp: keyword_then_boundary)
  qed
qed

lemma complexity_keywords_words:
  "\<forall>kw\<in>set complexity_keywords. kw \<noteq> [] \<and> list_all is_word kw"
  by (simp add: complexity_keywords_def is_word_def is_alnum_def is_lower_def is_upper_def
      is_digit_def between_def char_code_def)

lemma keyRegex_matcher:
  "matcher_of keyRegex Some st =
     (if \<not> is_word_opt (m_prev st)
         \<and> takeWhile is_word (m_rest st) \<in> set complexity_keywords
      then Some (after_word st) else None)"
proof -
  have k: "matcher_of keyRegex Some st =
      (if is_word_opt (m_prev st) \<noteq> is_word_opt (next_char st)
       then matcher_of (Alts (map Lit complexity_keywords)) (word_end (m_at st)) st
       else None)"
    by (simp add: keyRegex_def complexity_keywords_def word_end_def)
  have ne: "complexity_keywords \<noteq> []" by (simp add: complexity_keywords_def)
  have w: "is_word_opt (next_char st)"
    if "takeWhile is_word (m_rest st) \<in> set complexity_keywords"
  proof -
    from that complexity_keywords_words have "takeWhile is_word (m_rest st) \<noteq> []" by auto
    then show ?thesis
      by (cases "m_rest st") (auto simp: next_char_def is_word_opt_def split: if_splits)
  qed
  show ?thesis
    unfolding k keywords_then_boundary[OF ne complexity_keywords_words]
    using w by auto
qed

lemma keyRegex_scan_Nil: "exec_scan keyRegex i prev [] = None"
  using complexity_keywords_words by (auto simp: keyRegex_matcher)

lemma keyRegex_scan_Cons:
  "exec_scan keyRegex i prev (c # cs) =
     (if \<not> is_word_opt prev \<and> takeWhile is_word (c # cs) \<in> set complexity_keywords
      then Some \<lparr>mt_index = i, mt_end = i + length (takeWhile is_word (c # cs)),
                  mt_caps = [(1, i, i + length (takeWhile is_word (c # cs)))]\<rparr>
      else exec_scan keyRegex (i + 1) (Some c) cs)"
  by (simp add: keyRegex_matcher after_word_def Let_def)

lemma execAll_skip:
  assumes "exec r s i = exec r s (Suc i)"
  shows "execAll r s i = execAll r s (Suc i)"
proof (cases "exec r s (Suc i)")
  case None
  then show ?thesis using assms
    by (subst execAll.simps, subst (2) execAll.simps) simp
next
  case (Some mt)
  from exec_bounds[OF Some] have b: "Suc i \<le> mt_end mt" by simp
  show ?thesis
  proof (cases "mt_end mt \<le> Suc i")
    case True
    then have e: "mt_end mt = Suc i" using b by simp
    have n: "execAll r s (Suc i) = None" using Some True by (subst execAll.simps) simp
    have "execAll r s i = map_option (Cons mt) (execAll r s (Suc i))"
      using assms Some e by (subst execAll.simps) simp
    then show ?thesis using n by simp
  next
    case False
    have "execAll r s i = map_option (Cons mt) (execAll r s (mt_end mt))"
      using assms Some False by (subst execAll.simps) simp
    moreover have "execAll r s (Suc i) = map_option (Cons mt) (execAll r s (mt_end mt))"
      using Some False by (subst execAll.simps) simp
    ultimately show ?thesis by simp
  qed
qed

text \<open>The words that start at or after a position, given the character before it: the
  rest of a word that started earlier is not one of them.\<close>

definition tokens_after :: "char option \<Rightarrow> string \<Rightarrow> string list" where
  "tokens_after prev rest =
     (if is_word_opt prev then words_of (dropWhile is_word rest) else words_of rest)"

definition char_before :: "string \<Rightarrow> nat \<Rightarrow> char option" where
  "char_before s i = (if i = 0 then None else Some (s ! (i - 1)))"

lemma exec_char_before:
  "i \<le> length s \<Longrightarrow> exec r s i = exec_scan r i (char_before s i) (drop i s)"
  by (simp add: exec_def char_before_def)

lemma tokens_after_step:
  assumes "\<not> (\<not> is_word_opt prev \<and> takeWhile is_word (c # cs) \<in> set K)"
  shows "filter (\<lambda>w. w \<in> set K) (tokens_after prev (c # cs))
       = filter (\<lambda>w. w \<in> set K) (tokens_after (Some c) cs)"
proof (cases "is_word_opt prev")
  case True
  then show ?thesis by (simp add: tokens_after_def is_word_opt_def)
next
  case False
  then show ?thesis using assms
    by (auto simp: tokens_after_def is_word_opt_def)
qed

lemma execAll_keyRegex:
  "i \<le> length s \<Longrightarrow>
     \<exists>ms. execAll keyRegex s i = Some ms
        \<and> map (matched s) ms =
            filter (\<lambda>w. w \<in> set complexity_keywords)
              (tokens_after (char_before s i) (drop i s))"
proof (induction "length s - i" arbitrary: i rule: less_induct)
  case less
  show ?case
  proof (cases "drop i s")
    case Nil
    then have "exec keyRegex s i = None"
      using less.prems by (simp add: exec_char_before keyRegex_scan_Nil del: exec_scan.simps)
    then have "execAll keyRegex s i = Some []" by (subst execAll.simps) simp
    then show ?thesis using Nil by (simp add: tokens_after_def)
  next
    case (Cons c cs)
    then have lt: "i < length s" by (cases "i < length s") auto
    have c: "s ! i = c" and cs: "drop (Suc i) s = cs"
      using Cons lt by (auto simp: Cons_nth_drop_Suc[symmetric])
    let ?w = "takeWhile is_word (c # cs)"
    show ?thesis
    proof (cases "\<not> is_word_opt (char_before s i) \<and> ?w \<in> set complexity_keywords")
      case True
      define w where "w = takeWhile is_word (c # cs)"
      define d where "d = dropWhile is_word cs"
      let ?mt = "\<lparr>mt_index = i, mt_end = i + length w, mt_caps = [(1, i, i + length w)]\<rparr>"
      have ex: "exec keyRegex s i = Some ?mt"
        using less.prems True unfolding w_def
        by (simp add: exec_char_before Cons keyRegex_scan_Cons del: exec_scan.simps)
      have wne: "w \<noteq> []" using True complexity_keywords_words by (auto simp: w_def)
      have cw: "is_word c" using wne unfolding w_def by (cases "is_word c") auto
      have wa: "\<forall>x\<in>set w. is_word x" unfolding w_def by (meson set_takeWhileD)
      have dw: "drop i s = w @ d"
        using takeWhile_dropWhile_id[of is_word "c # cs"] cw by (simp add: Cons w_def d_def)
      have le: "i + length w \<le> length s"
        using arg_cong[OF dw, of length] lt by simp
      have m: "matched s ?mt = w" by (simp add: matched_def substr_def dw)
      have dr: "drop (i + length w) s = d"
        using arg_cong[OF dw, of "drop (length w)"] by (simp add: add.commute)
      have "s ! (i + length w - 1) = drop i s ! (length w - 1)"
        using wne lt by (simp add: Suc_leI)
      also have "\<dots> = last w" using wne unfolding dw by (simp add: nth_append last_conv_nth)
      finally have lastc: "s ! (i + length w - 1) = last w" .
      have lw: "is_word (last w)" using wa wne by simp
      have cb: "char_before s (i + length w) = Some (last w)"
        using wne lastc by (simp add: char_before_def)
      have "length s - (i + length w) < length s - i" using wne lt by (cases w) auto
      from less.hyps[OF this le] obtain ms where ms:
        "execAll keyRegex s (i + length w) = Some ms"
        "map (matched s) ms = filter (\<lambda>w. w \<in> set complexity_keywords)
            (tokens_after (char_before s (i + length w)) (drop (i + length w) s))"
        by blast
      have dd: "dropWhile is_word d = d"
        unfolding d_def by (simp add: dropWhile_idem)
      have t1: "tokens_after (char_before s (i + length w)) (drop (i + length w) s) = words_of d"
        using lw by (simp add: cb dr tokens_after_def is_word_opt_def dd)
      have t2: "tokens_after (char_before s i) (drop i s) = w # words_of d"
        using True cw by (simp add: Cons tokens_after_def w_def d_def)
      have wk: "w \<in> set complexity_keywords" using True by (simp add: w_def)
      have "execAll keyRegex s i = Some (?mt # ms)"
        using ex ms(1) wne by (subst execAll.simps) simp
      then show ?thesis using m ms(2) wk unfolding t1 t2 by simp
    next
      case False
      have "exec keyRegex s i = exec_scan keyRegex i (char_before s i) (c # cs)"
        using less.prems by (simp add: exec_char_before Cons del: exec_scan.simps)
      also have "\<dots> = exec_scan keyRegex (i + 1) (Some c) cs"
        by (subst keyRegex_scan_Cons) (rule if_not_P[OF False])
      also have "\<dots> = exec keyRegex s (Suc i)"
        using lt c cs by (simp add: exec_char_before char_before_def del: exec_scan.simps)
      finally have "execAll keyRegex s i = execAll keyRegex s (Suc i)" by (rule execAll_skip)
      moreover have "length s - Suc i < length s - i" using lt by simp
      from less.hyps[OF this] lt obtain ms where ms:
        "execAll keyRegex s (Suc i) = Some ms"
        "map (matched s) ms = filter (\<lambda>w. w \<in> set complexity_keywords)
            (tokens_after (char_before s (Suc i)) (drop (Suc i) s))"
        by auto
      moreover have "char_before s (Suc i) = Some c" using c by (simp add: char_before_def)
      ultimately show ?thesis
        using tokens_after_step[OF False] by (simp add: Cons cs)
    qed
  qed
qed

lemma keyRegex_words:
  "\<exists>ms. execAll keyRegex s 0 = Some ms
      \<and> map (matched s) ms = filter (\<lambda>w. w \<in> set complexity_keywords) (words_of s)"
  using execAll_keyRegex[of 0 s]
  by (simp add: tokens_after_def char_before_def is_word_opt_def)

subsection \<open>The score\<close>

text \<open>The score as the specification words it: the occurrences of \<open>if\<close>, \<open>func\<close>,
  \<open>while\<close>, \<open>for\<close> and \<open>guard\<close> in the text of the function, plus the occurrences of
  \<open>case\<close> minus those of \<open>fallthrough\<close> when \<open>switch\<close> occurs and the difference is
  positive. The text of a function starts at its \<open>func\<close> keyword, which is one of the
  occurrences counted.\<close>

definition occurrences :: "string \<Rightarrow> string \<Rightarrow> int" where
  "occurrences kw funcBody = int (count_list (words_of funcBody) kw)"

definition keyword_score :: "string \<Rightarrow> int" where
  "keyword_score funcBody =
     occurrences ''if'' funcBody + occurrences ''func'' funcBody
     + occurrences ''while'' funcBody + occurrences ''for'' funcBody
     + occurrences ''guard'' funcBody
     + (if 0 < occurrences ''switch'' funcBody
           \<and> 0 < occurrences ''case'' funcBody - occurrences ''fallthrough'' funcBody
        then occurrences ''case'' funcBody - occurrences ''fallthrough'' funcBody
        else 0)"

lemma fold_count:
  "fold (\<lambda>mt kc. kc(matched b mt := kc (matched b mt) + 1)) ms kc0 kw
     = kc0 kw + int (count_list (map (matched b) ms) kw)"
  by (induction ms arbitrary: kc0) auto

text \<open>The table of counts, entry by entry. The equation also serves to evaluate the
  table.\<close>

lemma keywordCount_count [code]:
  "keywordCount funcBody ms kw = int (count_list (map (matched funcBody) ms) kw)"
  by (simp add: keywordCount_def fold_count)

lemma count_list_filter: "P kw \<Longrightarrow> count_list (filter P ws) kw = count_list ws kw"
  by (induction ws) auto

lemma keywordCount_occurrences:
  assumes "execAll keyRegex funcBody 0 = Some ms" "kw \<in> set complexity_keywords"
  shows "keywordCount funcBody ms kw = occurrences kw funcBody"
proof -
  from keyRegex_words[of funcBody] assms(1)
  have "map (matched funcBody) ms
      = filter (\<lambda>w. w \<in> set complexity_keywords) (words_of funcBody)" by simp
  then show ?thesis
    using assms(2) by (simp add: keywordCount_count occurrences_def count_list_filter)
qed

lemma currentComplexity_score: "currentComplexity funcBody = Some (keyword_score funcBody)"
proof -
  obtain ms where ms: "execAll keyRegex funcBody 0 = Some ms"
    using keyRegex_words[of funcBody] by blast
  have k: "keywordCount funcBody ms kw = occurrences kw funcBody"
    if "kw \<in> set complexity_keywords" for kw
    using keywordCount_occurrences[OF ms that] .
  have "complexity_of_counts (keywordCount funcBody ms) = keyword_score funcBody"
    unfolding complexity_of_counts_def keyword_score_def Let_def
    by (simp add: k complexity_keywords_def)
  then show ?thesis by (simp add: currentComplexity_def ms)
qed

lemma cyclomaticComplexityRule_score:
  "cyclomaticComplexityRule text fns =
     Some (concat (map (\<lambda>f.
        if 10 < keyword_score (b_code f) then
          [\<lparr>e_code = b_code f, e_index = Num (b_index f),
            e_severity = (if 20 < keyword_score (b_code f) then Error else Warning),
            e_message = complexity_message (b_name f) (keyword_score (b_code f))\<rparr>]
        else []) fns))"
  by (induction fns) (simp_all add: currentComplexity_score)

subsection \<open>Thresholds\<close>

text \<open>A function whose text has the \<open>func\<close> keyword, \<open>a\<close> times \<open>if\<close> and \<open>b\<close> times
  \<open>for\<close>, and a function with a \<open>switch\<close>.\<close>

definition branches :: "nat \<Rightarrow> nat \<Rightarrow> string" where
  "branches a b =
     ''func f() { '' @ concat (replicate a ''if '') @ concat (replicate b ''for '') @ ''}''"

definition switchFunction :: string where
  "switchFunction =
     ''func g() { switch x { case 1: fallthrough; case 2: if y { }; case 3: z() } }''"

lemma branches_warning:
  "Option.bind (extractFunctions (branches 5 5)) (cyclomaticComplexityRule (branches 5 5))
     = Some [\<lparr>e_code = branches 5 5, e_index = Num 0, e_severity = Warning,
               e_message = complexity_message ''f'' 11\<rparr>]"
  by code_simp

lemma branches_error:
  "Option.bind (extractFunctions (branches 10 10)) (cyclomaticComplexityRule (branches 10 10))
     = Some [\<lparr>e_code = branches 10 10, e_index = Num 0, e_severity = Error,
               e_message = complexity_message ''f'' 21\<rparr>]"
  by code_simp

lemma branches_none:
  "Option.bind (extractFunctions (branches 5 4)) (cyclomaticComplexityRule (branches 5 4))
     = Some []"
  by code_simp

lemma switch_score: "currentComplexity switchFunction = Some 4"
  by code_simp

text \<open>C3. The complexity rule returns for every list of functions, and its findings are,
  function by function and in order: none when the score of the function is at most 10,
  and otherwise one finding at the function, a warning when the score is at most 20 and an
  error above, whose message gives the score. The score is the number of occurrences of
  \<open>if\<close>, \<open>func\<close>, \<open>while\<close>, \<open>for\<close> and \<open>guard\<close> in the text of the function, plus the
  occurrences of \<open>case\<close> minus those of \<open>fallthrough\<close> when \<open>switch\<close> occurs and that
  difference is positive (\<open>keyword_score\<close>). The function extracted from a text with 11
  occurrences and no \<open>switch\<close> gets a warning, with 21 an error, with 10 no finding; and
  the score of a function with a \<open>switch\<close>, three \<open>case\<close>, one \<open>fallthrough\<close> and one \<open>if\<close>
  is 4.\<close>

theorem complexity_rule:
  "cyclomaticComplexityRule text fns =
     Some (concat (map (\<lambda>f.
        if 10 < keyword_score (b_code f) then
          [\<lparr>e_code = b_code f, e_index = Num (b_index f),
            e_severity = (if 20 < keyword_score (b_code f) then Error else Warning),
            e_message = complexity_message (b_name f) (keyword_score (b_code f))\<rparr>]
        else []) fns))
   \<and> Option.bind (extractFunctions (branches 5 5)) (cyclomaticComplexityRule (branches 5 5))
       = Some [\<lparr>e_code = branches 5 5, e_index = Num 0, e_severity = Warning,
                 e_message = complexity_message ''f'' 11\<rparr>]
   \<and> Option.bind (extractFunctions (branches 10 10))
         (cyclomaticComplexityRule (branches 10 10))
       = Some [\<lparr>e_code = branches 10 10, e_index = Num 0, e_severity = Error,
                 e_message = complexity_message ''f'' 21\<rparr>]
   \<and> Option.bind (extractFunctions (branches 5 4)) (cyclomaticComplexityRule (branches 5 4))
       = Some []
   \<and> currentComplexity switchFunction = Some 4
   \<and> keyword_score switchFunction = 4"
proof -
  have "keyword_score switchFunction = 4"
    using switch_score unfolding currentComplexity_score by simp
  with cyclomaticComplexityRule_score[of "text" fns] branches_warning branches_error
    branches_none switch_score
  show ?thesis by (intro conjI)
qed

end
